theory Spec2Isabelle
  imports Complex_Main "HOL-Library.Multiset"
begin

section \<open>Python strings\<close>

text \<open>
  A Python \<^verbatim>\<open>str\<close> is a sequence of Unicode code points. The validator's character
  classes name single code points beyond ASCII (all of them precomposed, NFC), so a string
  is modelled as the list of its code points.
\<close>

type_synonym codepoint = nat
type_synonym ustr = "codepoint list"

text \<open>An ASCII literal of the source, as a code-point list.\<close>

definition u :: "string \<Rightarrow> ustr" where
  "u s = map of_char s"

text \<open>
  \<^verbatim>\<open>str.isspace\<close> on one code point; \<^verbatim>\<open>str.strip()\<close> and the regular
  expression class \<^verbatim>\<open>\s\<close> (on \<^verbatim>\<open>str\<close> patterns) use the same set.
\<close>

definition py_isspace :: "codepoint \<Rightarrow> bool" where
  "py_isspace c \<longleftrightarrow>
     (0x09 \<le> c \<and> c \<le> 0x0D) \<or> (0x1C \<le> c \<and> c \<le> 0x20) \<or> c = 0x85 \<or> c = 0xA0 \<or>
     c = 0x1680 \<or> (0x2000 \<le> c \<and> c \<le> 0x200A) \<or> c = 0x2028 \<or> c = 0x2029 \<or>
     c = 0x202F \<or> c = 0x205F \<or> c = 0x3000"

definition py_strip :: "ustr \<Rightarrow> ustr" where
  "py_strip s = rev (dropWhile py_isspace (rev (dropWhile py_isspace s)))"

text \<open>
  \<^verbatim>\<open>str.lower()\<close> is a function of the Python runtime: it follows the Unicode
  character database (some 1400 code points change, one of them to two code points, and capital
  sigma by its context). It is not part of the program, and it is not copied here: every
  function below that calls \<^verbatim>\<open>.lower()\<close> takes the lower-casing function as its first
  argument \<open>lower\<close>, and what is proved of the program is proved for every such function.
  Where a property of lower-casing is needed, it is a hypothesis that is written out.

  The examples need one lower-casing function that can be run. \<open>latin_lower\<close> is
  \<^verbatim>\<open>str.lower()\<close> on the strings whose code points all lie in Basic Latin, Latin-1
  Supplement, Latin Extended-A (U+0000 to U+017F), the four letters O-horn and U-horn of
  Latin Extended-B, or Latin Extended Additional (U+1E00 to U+1EFF): the blocks that hold the
  English and Vietnamese alphabets. U+0130 lowers to two code points. No example below uses a
  string with a code point outside these blocks, and \<open>latin_lower\<close> is used in examples only.
\<close>

definition latin_lower_cp :: "codepoint \<Rightarrow> codepoint list" where
  "latin_lower_cp c =
     (if 0x41 \<le> c \<and> c \<le> 0x5A then [c + 32]
      else if 0xC0 \<le> c \<and> c \<le> 0xDE \<and> c \<noteq> 0xD7 then [c + 32]
      else if c = 0x130 then [0x69, 0x307]
      else if c = 0x178 then [0xFF]
      else if (0x100 \<le> c \<and> c \<le> 0x137 \<or> 0x14A \<le> c \<and> c \<le> 0x177) \<and> even c then [c + 1]
      else if (0x139 \<le> c \<and> c \<le> 0x148 \<or> 0x179 \<le> c \<and> c \<le> 0x17E) \<and> odd c then [c + 1]
      else if c = 0x1A0 \<or> c = 0x1AF then [c + 1]
      else if c = 0x1E9E then [0xDF]
      else if 0x1E00 \<le> c \<and> c \<le> 0x1EFF \<and> even c \<and> \<not> (0x1E96 \<le> c \<and> c \<le> 0x1E9F)
        then [c + 1]
      else [c])"

definition latin_lower :: "ustr \<Rightarrow> ustr" where
  "latin_lower s = concat (map latin_lower_cp s)"

text \<open>\<^verbatim>\<open>sub in s\<close> for strings: \<^verbatim>\<open>sub\<close> occurs as a contiguous slice.\<close>

fun py_contains :: "ustr \<Rightarrow> ustr \<Rightarrow> bool" where
  "py_contains sub [] = (sub = [])"
| "py_contains sub (c # s) = (take (length sub) (c # s) = sub \<or> py_contains sub s)"

section \<open>The similarity ratio of \<^verbatim>\<open>difflib.SequenceMatcher\<close>\<close>

text \<open>
  \<^verbatim>\<open>get_similar_terms\<close> scores a key with
  \<^verbatim>\<open>difflib.SequenceMatcher(None, term, existing_term).ratio()\<close>: no junk predicate,
  and the parameter \<^verbatim>\<open>autojunk\<close> left at its default, \<^verbatim>\<open>True\<close>. The matcher
  indexes the second sequence \<^verbatim>\<open>b\<close>: \<^verbatim>\<open>b2j\<close> maps an element to the ascending
  list of the positions where it occurs in \<^verbatim>\<open>b\<close>. With \<^verbatim>\<open>autojunk\<close>, when
  \<^verbatim>\<open>b\<close> has 200 elements or more, an element that occurs more than
  \<^verbatim>\<open>len(b) // 100 + 1\<close> times is "popular" and is left out of the index. The index is
  built once and passed on as \<open>idx\<close>.
\<close>

definition popular :: "'a list \<Rightarrow> 'a \<Rightarrow> bool" where
  "popular b x \<longleftrightarrow> 200 \<le> length b \<and> length b div 100 + 1 < count_list b x"

definition b2j :: "bool \<Rightarrow> 'a list \<Rightarrow> 'a \<Rightarrow> nat list" where
  "b2j autojunk b x =
     (if autojunk \<and> popular b x then [] else filter (\<lambda>j. b ! j = x) [0..<length b])"

type_synonym match = "nat \<times> nat \<times> nat"

text \<open>
  \<^verbatim>\<open>find_longest_match\<close>. The dictionary \<^verbatim>\<open>j2len\<close> is a function with
  default 0; \<^verbatim>\<open>j2len.get(j-1, 0)\<close> at \<^verbatim>\<open>j = 0\<close> asks for the key -1, which is
  never present. The body of the inner loop:
\<close>

definition inner_step ::
  "(nat \<Rightarrow> nat) \<Rightarrow> nat \<Rightarrow> (nat \<Rightarrow> nat) \<times> match \<Rightarrow> nat \<Rightarrow> (nat \<Rightarrow> nat) \<times> match" where
  "inner_step j2len i st j =
     (case st of (newj2len, (besti, bestj, bestsize)) \<Rightarrow>
        let k = (if j = 0 then 0 else j2len (j - 1)) + 1 in
        if bestsize < k then (newj2len(j := k), (i + 1 - k, j + 1 - k, k))
        else (newj2len(j := k), (besti, bestj, bestsize)))"

text \<open>
  One round of the outer loop. The indices of \<^verbatim>\<open>b2j\<close> ascend, so skipping those
  below \<^verbatim>\<open>blo\<close> and breaking at the first one from \<^verbatim>\<open>bhi\<close> on visits exactly
  the indices in range.
\<close>

definition row_step ::
  "'a list \<Rightarrow> ('a \<Rightarrow> nat list) \<Rightarrow> nat \<Rightarrow> nat \<Rightarrow> (nat \<Rightarrow> nat) \<times> match \<Rightarrow> nat \<Rightarrow>
     (nat \<Rightarrow> nat) \<times> match" where
  "row_step a idx blo bhi st i =
     (case st of (j2len, best) \<Rightarrow>
        foldl (inner_step j2len i) ((\<lambda>_. 0), best)
          (filter (\<lambda>j. blo \<le> j \<and> j < bhi) (idx (a ! i))))"

function extend_left :: "'a list \<Rightarrow> 'a list \<Rightarrow> nat \<Rightarrow> nat \<Rightarrow> match \<Rightarrow> match" where
  "extend_left a b alo blo (besti, bestj, bestsize) =
     (if alo < besti \<and> blo < bestj \<and> a ! (besti - 1) = b ! (bestj - 1)
      then extend_left a b alo blo (besti - 1, bestj - 1, bestsize + 1)
      else (besti, bestj, bestsize))"
  by pat_completeness auto
termination
  by (relation "measure (\<lambda>(a, b, alo, blo, besti, bestj, bestsize). besti)") auto

declare extend_left.simps [simp del]

function extend_right :: "'a list \<Rightarrow> 'a list \<Rightarrow> nat \<Rightarrow> nat \<Rightarrow> match \<Rightarrow> match" where
  "extend_right a b ahi bhi (besti, bestj, bestsize) =
     (if besti + bestsize < ahi \<and> bestj + bestsize < bhi \<and>
         a ! (besti + bestsize) = b ! (bestj + bestsize)
      then extend_right a b ahi bhi (besti, bestj, bestsize + 1)
      else (besti, bestj, bestsize))"
  by pat_completeness auto
termination
  by (relation "measure (\<lambda>(a, b, ahi, bhi, besti, bestj, bestsize). ahi - (besti + bestsize))") auto

declare extend_right.simps [simp del]

text \<open>
  With no junk predicate the set \<^verbatim>\<open>bjunk\<close> is empty: the first pair of
  \<^verbatim>\<open>while\<close> loops extends the match over every equal neighbour, and the second pair
  (which extends over junk only) never runs.
\<close>

definition find_longest_match ::
  "'a list \<Rightarrow> 'a list \<Rightarrow> ('a \<Rightarrow> nat list) \<Rightarrow> nat \<Rightarrow> nat \<Rightarrow> nat \<Rightarrow> nat \<Rightarrow> match" where
  "find_longest_match a b idx alo ahi blo bhi =
     extend_right a b ahi bhi
       (extend_left a b alo blo
          (snd (foldl (row_step a idx blo bhi) ((\<lambda>_. 0), (alo, blo, 0)) [alo..<ahi])))"

text \<open>
  \<^verbatim>\<open>get_matching_blocks\<close> works through a stack of regions; each region gives its
  longest match and, around it, at most two smaller regions. The blocks are listed here in
  the order of that recursion. The source then sorts them, merges adjacent ones and appends
  a sentinel of size 0, none of which changes the sum of the sizes that \<^verbatim>\<open>ratio\<close>
  takes.
\<close>

function matching_blocks ::
  "'a list \<Rightarrow> 'a list \<Rightarrow> ('a \<Rightarrow> nat list) \<Rightarrow> nat \<Rightarrow> nat \<Rightarrow> nat \<Rightarrow> nat \<Rightarrow> match list" where
  "matching_blocks a b idx alo ahi blo bhi =
     (case find_longest_match a b idx alo ahi blo bhi of (i, j, k) \<Rightarrow>
        if k = 0 then []
        else (i, j, k)
          # (if alo < i \<and> blo < j then matching_blocks a b idx alo i blo j else [])
          @ (if i + k < ahi \<and> j + k < bhi then matching_blocks a b idx (i + k) ahi (j + k) bhi else []))"
  by pat_completeness auto

text \<open>
  Termination: a match of positive size lies inside its region, so both regions of the
  recursion are strictly smaller. The lemmas follow the loops of
  \<^verbatim>\<open>find_longest_match\<close>: in round \<open>i\<close> no run is longer than the number of
  rounds made so far.
\<close>

lemma inner_step_inv:
  assumes "\<forall>j. j2len j \<le> i - alo" "alo \<le> i"
    and "inner_step j2len i (new, (bi, bj, bs)) j = (new', (bi', bj', bs'))"
    and "\<forall>j. new j \<le> i - alo + 1" "alo \<le> bi" "bi + bs \<le> i + 1"
  shows "(\<forall>j. new' j \<le> i - alo + 1) \<and> alo \<le> bi' \<and> bi' + bs' \<le> i + 1"
proof -
  define k where "k = (if j = 0 then 0 else j2len (j - 1)) + 1"
  have k: "k \<le> i - alo + 1" "0 < k"
    using assms(1) by (simp_all add: k_def)
  have step: "inner_step j2len i (new, (bi, bj, bs)) j =
      (if bs < k then (new(j := k), (i + 1 - k, j + 1 - k, k)) else (new(j := k), (bi, bj, bs)))"
    unfolding inner_step_def k_def by (simp add: Let_def)
  show ?thesis
  proof (cases "bs < k")
    case True
    with step assms(3) have "new' = new(j := k)" "bi' = i + 1 - k" "bs' = k" by simp_all
    with k assms(2,4) show ?thesis by auto
  next
    case False
    with step assms(3) have "new' = new(j := k)" "bi' = bi" "bs' = bs" by simp_all
    with k assms(4-6) show ?thesis by auto
  qed
qed

lemma inner_fold_inv:
  assumes "\<forall>j. j2len j \<le> i - alo" "alo \<le> i"
  shows "foldl (inner_step j2len i) (new, (bi, bj, bs)) js = (new', (bi', bj', bs')) \<Longrightarrow>
         \<forall>j. new j \<le> i - alo + 1 \<Longrightarrow> alo \<le> bi \<Longrightarrow> bi + bs \<le> i + 1 \<Longrightarrow>
         (\<forall>j. new' j \<le> i - alo + 1) \<and> alo \<le> bi' \<and> bi' + bs' \<le> i + 1"
proof (induction js arbitrary: new bi bj bs)
  case Nil
  then show ?case by simp
next
  case (Cons j js)
  obtain n1 b1 c1 s1 where st: "inner_step j2len i (new, (bi, bj, bs)) j = (n1, (b1, c1, s1))"
    by (metis prod_cases4)
  from inner_step_inv [OF assms st Cons.prems(2-4)]
  have "(\<forall>j. n1 j \<le> i - alo + 1) \<and> alo \<le> b1 \<and> b1 + s1 \<le> i + 1" .
  with Cons.IH [of n1 b1 c1 s1] Cons.prems(1) st show ?case by simp
qed

lemma row_step_inv:
  assumes "row_step a idx blo bhi (j2len, (bi, bj, bs)) i = (new', (bi', bj', bs'))"
    and "\<forall>j. j2len j \<le> i - alo" "alo \<le> i" "alo \<le> bi" "bi + bs \<le> i"
  shows "(\<forall>j. new' j \<le> Suc i - alo) \<and> alo \<le> bi' \<and> bi' + bs' \<le> Suc i"
proof -
  from assms(1) have f: "foldl (inner_step j2len i) ((\<lambda>_. 0), (bi, bj, bs))
          (filter (\<lambda>j. blo \<le> j \<and> j < bhi) (idx (a ! i))) = (new', (bi', bj', bs'))"
    by (simp add: row_step_def)
  from inner_fold_inv [OF assms(2,3) f] assms(3-) show ?thesis
    by (simp add: Suc_diff_le)
qed

lemma rows_inv:
  "alo \<le> n \<Longrightarrow> foldl (row_step a idx blo bhi) ((\<lambda>_. 0), (alo, blo, 0)) [alo..<n] = (j2len, (bi, bj, bs)) \<Longrightarrow>
   (\<forall>j. j2len j \<le> n - alo) \<and> alo \<le> bi \<and> bi + bs \<le> n"
proof (induction n arbitrary: j2len bi bj bs)
  case 0
  then have "j2len = (\<lambda>_. 0)" "bi = alo" "bs = 0" by auto
  with 0 show ?case by simp
next
  case (Suc n)
  show ?case
  proof (cases "alo = Suc n")
    case True
    with Suc.prems have "j2len = (\<lambda>_. 0)" "bi = alo" "bs = 0" by auto
    with True show ?thesis by simp
  next
    case False
    with Suc.prems have le: "alo \<le> n" by simp
    obtain j0 b0 c0 s0 where st: "foldl (row_step a idx blo bhi) ((\<lambda>_. 0), (alo, blo, 0)) [alo..<n] = (j0, (b0, c0, s0))"
      by (metis prod_cases4)
    from Suc.IH [OF le st] have inv: "(\<forall>j. j0 j \<le> n - alo) \<and> alo \<le> b0 \<and> b0 + s0 \<le> n" .
    from Suc.prems(2) le st have "row_step a idx blo bhi (j0, (b0, c0, s0)) n = (j2len, (bi, bj, bs))"
      by simp
    from row_step_inv [where alo = alo, OF this] inv le show ?thesis by simp
  qed
qed

lemma extend_left_inv:
  "extend_left a b alo blo m = (bi', bj', bs') \<Longrightarrow> alo \<le> fst m \<Longrightarrow>
   alo \<le> bi' \<and> bi' + bs' = fst m + snd (snd m)"
proof (induction a b alo blo m rule: extend_left.induct)
  case (1 a b alo blo besti bestj bestsize)
  show ?case
  proof (cases "alo < besti \<and> blo < bestj \<and> a ! (besti - 1) = b ! (bestj - 1)")
    case True
    have "extend_left a b alo blo (besti, bestj, bestsize) =
          extend_left a b alo blo (besti - 1, bestj - 1, bestsize + 1)"
      by (subst extend_left.simps, rule if_P, rule True)
    with "1.prems"(1)
    have rec: "extend_left a b alo blo (besti - 1, bestj - 1, bestsize + 1) = (bi', bj', bs')"
      by simp
    from True have "alo \<le> besti - 1" by arith
    then have "alo \<le> fst (besti - 1, bestj - 1, bestsize + 1)" by simp
    from "1.IH" [OF True rec this] True show ?thesis by simp
  next
    case False
    have "extend_left a b alo blo (besti, bestj, bestsize) = (besti, bestj, bestsize)"
      by (subst extend_left.simps, rule if_not_P, rule False)
    with "1.prems" show ?thesis by simp
  qed
qed

lemma extend_right_inv:
  "extend_right a b ahi bhi m = (bi', bj', bs') \<Longrightarrow> fst m + snd (snd m) \<le> max n ahi \<Longrightarrow>
   bi' = fst m \<and> bi' + bs' \<le> max n ahi"
proof (induction a b ahi bhi m rule: extend_right.induct)
  case (1 a b ahi bhi besti bestj bestsize)
  let ?c = "besti + bestsize < ahi \<and> bestj + bestsize < bhi \<and>
         a ! (besti + bestsize) = b ! (bestj + bestsize)"
  show ?case
  proof (cases ?c)
    case True
    have "extend_right a b ahi bhi (besti, bestj, bestsize) =
          extend_right a b ahi bhi (besti, bestj, bestsize + 1)"
      by (subst extend_right.simps, rule if_P, rule True)
    with "1.prems"(1)
    have rec: "extend_right a b ahi bhi (besti, bestj, bestsize + 1) = (bi', bj', bs')"
      by simp
    from True have "besti + (bestsize + 1) \<le> ahi" by simp
    then have "fst (besti, bestj, bestsize + 1) + snd (snd (besti, bestj, bestsize + 1)) \<le> max n ahi"
      by simp
    from "1.IH" [OF True rec this] show ?thesis by simp
  next
    case False
    have "extend_right a b ahi bhi (besti, bestj, bestsize) = (besti, bestj, bestsize)"
      by (subst extend_right.simps, rule if_not_P, rule False)
    with "1.prems" show ?thesis by simp
  qed
qed

lemma find_longest_match_bounds:
  assumes "find_longest_match a b idx alo ahi blo bhi = (i, j, k)"
  shows "alo \<le> i \<and> i + k \<le> max alo ahi"
proof -
  obtain j0 b0 c0 s0 where st: "foldl (row_step a idx blo bhi) ((\<lambda>_. 0), (alo, blo, 0)) [alo..<ahi] = (j0, (b0, c0, s0))"
    by (metis prod_cases4)
  have inv0: "alo \<le> b0 \<and> b0 + s0 \<le> max alo ahi"
  proof (cases "alo \<le> ahi")
    case True
    from rows_inv [OF True st] True show ?thesis by simp
  next
    case False
    with st show ?thesis by simp
  qed
  obtain b1 c1 s1 where l: "extend_left a b alo blo (b0, c0, s0) = (b1, c1, s1)"
    by (metis prod_cases3)
  from extend_left_inv [OF l] inv0 have inv1: "alo \<le> b1 \<and> b1 + s1 \<le> max alo ahi" by simp
  from assms st l have "extend_right a b ahi bhi (b1, c1, s1) = (i, j, k)"
    by (simp add: find_longest_match_def)
  from extend_right_inv [OF this, of alo] inv1 show ?thesis by simp
qed

lemma find_longest_match_shrinks:
  assumes "find_longest_match a b idx alo ahi blo bhi = (i, j, k)" "k \<noteq> 0"
  shows "alo \<le> i" "i < ahi" "i + k \<le> ahi" "alo < ahi"
proof -
  from find_longest_match_bounds [OF assms(1)] have b: "alo \<le> i" "i + k \<le> max alo ahi"
    by simp_all
  show "alo \<le> i" by (rule b(1))
  have "alo < ahi"
  proof (rule ccontr)
    assume "\<not> alo < ahi"
    then have "max alo ahi = alo" by simp
    with b assms(2) show False by simp
  qed
  then show "alo < ahi" .
  then have "max alo ahi = ahi" by simp
  with b(2) show "i + k \<le> ahi" by simp
  with assms(2) show "i < ahi" by simp
qed

termination matching_blocks
proof (relation "measure (\<lambda>(a, b, idx, alo, ahi, blo, bhi). ahi - alo)")
  show "wf (measure (\<lambda>(a, b, idx, alo, ahi, blo, bhi). ahi - alo))" by simp
next
  fix a b :: "'a list" and idx :: "'a \<Rightarrow> nat list" and alo ahi blo bhi i j k :: nat
    and y :: "nat \<times> nat"
  assume "(i, y) = find_longest_match a b idx alo ahi blo bhi" "(j, k) = y" "k \<noteq> 0" "alo < i \<and> blo < j"
  then have "find_longest_match a b idx alo ahi blo bhi = (i, j, k)" by simp
  from find_longest_match_shrinks [OF this \<open>k \<noteq> 0\<close>] have "i - alo < ahi - alo" by simp
  then show "((a, b, idx, alo, i, blo, j), a, b, idx, alo, ahi, blo, bhi) \<in> measure (\<lambda>(a, b, idx, alo, ahi, blo, bhi). ahi - alo)"
    by simp
next
  fix a b :: "'a list" and idx :: "'a \<Rightarrow> nat list" and alo ahi blo bhi i j k :: nat
    and y :: "nat \<times> nat"
  assume "(i, y) = find_longest_match a b idx alo ahi blo bhi" "(j, k) = y" "k \<noteq> 0" "i + k < ahi \<and> j + k < bhi"
  then have "find_longest_match a b idx alo ahi blo bhi = (i, j, k)" by simp
  from find_longest_match_shrinks [OF this \<open>k \<noteq> 0\<close>] \<open>k \<noteq> 0\<close> have "ahi - (i + k) < ahi - alo" by simp
  then show "((a, b, idx, i + k, ahi, j + k, bhi), a, b, idx, alo, ahi, blo, bhi) \<in> measure (\<lambda>(a, b, idx, alo, ahi, blo, bhi). ahi - alo)"
    by simp
qed

declare matching_blocks.simps [simp del]

text \<open>
  \<^verbatim>\<open>_calculate_ratio\<close>: \<^verbatim>\<open>2.0 * matches / length\<close>, and 1.0 for two empty strings.
  \<open>ratio autojunk a b\<close> is \<^verbatim>\<open>SequenceMatcher(None, a, b, autojunk).ratio()\<close>.
\<close>

definition calculate_ratio :: "nat \<Rightarrow> nat \<Rightarrow> real" where
  "calculate_ratio matches len = (if len \<noteq> 0 then 2 * real matches / real len else 1)"

definition ratio :: "bool \<Rightarrow> 'a list \<Rightarrow> 'a list \<Rightarrow> real" where
  "ratio autojunk a b =
     calculate_ratio (sum_list (map (\<lambda>(i, j, k). k) (matching_blocks a b (b2j autojunk b) 0 (length a) 0 (length b))))
       (length a + length b)"

section \<open>The term store (\<^verbatim>\<open>MedicalDictionary\<close>)\<close>

text \<open>
  A timestamp stands for one result of \<^verbatim>\<open>datetime.now().isoformat()\<close>. The record
  stored under a key has the fields of the dictionary literal in \<^verbatim>\<open>add_term\<close>; the
  category is \<^verbatim>\<open>None\<close> when \<^verbatim>\<open>import_csv\<close> passes the filler of a short row.
\<close>

type_synonym timestamp = nat

record version_entry =
  v_vietnamese :: ustr
  v_confidence :: real
  v_date :: timestamp
  v_source :: ustr

record term_data =
  t_vietnamese :: ustr
  t_category :: "ustr option"
  t_source :: ustr
  t_confidence :: real
  t_added_date :: timestamp
  t_last_updated :: timestamp
  t_versions :: "version_entry list"

text \<open>
  \<^verbatim>\<open>self.terms\<close> is a Python \<^verbatim>\<open>dict\<close>: it iterates in insertion order, and an
  assignment to a key that is present replaces the value where it stands.
\<close>

fun dict_set :: "('k \<times> 'v) list \<Rightarrow> 'k \<Rightarrow> 'v \<Rightarrow> ('k \<times> 'v) list" where
  "dict_set [] k v = [(k, v)]"
| "dict_set ((k', v') # kvs) k v =
     (if k' = k then (k, v) # kvs else (k', v') # dict_set kvs k v)"

definition dict_get :: "('k \<times> 'v) list \<Rightarrow> 'k \<Rightarrow> 'v option" where
  "dict_get kvs k = map_of kvs k"

definition dict_keys :: "('k \<times> 'v) list \<Rightarrow> 'k list" where
  "dict_keys kvs = map fst kvs"

text \<open>
  The state: the in-memory mapping, and the clock. The \<open>n\<close>-th call of
  \<^verbatim>\<open>datetime.now()\<close> returns \<open>clock n\<close>; \<open>ticks\<close> counts the calls made so far.
  \<^verbatim>\<open>_save_dictionary\<close> and the logger only write (to the JSON file and to the log);
  \<^verbatim>\<open>_save_dictionary\<close> catches its own exceptions, and nothing modelled here reads
  either back, so they are left out of the state.
\<close>

record dictionary =
  terms :: "(ustr \<times> term_data) list"
  clock :: "nat \<Rightarrow> timestamp"
  ticks :: nat

definition now :: "dictionary \<Rightarrow> timestamp \<times> dictionary" where
  "now d = (clock d (ticks d), d\<lparr>ticks := ticks d + 1\<rparr>)"

text \<open>
  \<^verbatim>\<open>add_term\<close>. The type hints say \<^verbatim>\<open>str\<close>, but \<^verbatim>\<open>import_csv\<close> passes
  whatever the row holds, and that can be \<^verbatim>\<open>None\<close>: then \<^verbatim>\<open>.lower()\<close> or
  \<^verbatim>\<open>.strip()\<close> raises AttributeError inside the \<^verbatim>\<open>try\<close>, and the function
  returns \<^verbatim>\<open>False\<close> before anything is stored. The dictionary literal calls
  \<^verbatim>\<open>datetime.now()\<close> three times, in the order of its keys.
\<close>

definition add_term ::
  "(ustr \<Rightarrow> ustr) \<Rightarrow> dictionary \<Rightarrow> ustr option \<Rightarrow> ustr option \<Rightarrow> ustr option \<Rightarrow> ustr \<Rightarrow> real \<Rightarrow> dictionary \<times> bool"
  where
  "add_term lower d english vietnamese category source confidence =
     (case english of
        None \<Rightarrow> (d, False)
      | Some e \<Rightarrow>
          (case vietnamese of
             None \<Rightarrow> (d, False)
           | Some v \<Rightarrow>
               let english' = py_strip (lower e);
                   vietnamese' = py_strip v;
                   (added, d1) = now d;
                   (updated, d2) = now d1;
                   (date, d3) = now d2;
                   term_data =
                     \<lparr>t_vietnamese = vietnamese', t_category = category, t_source = source,
                      t_confidence = confidence, t_added_date = added, t_last_updated = updated,
                      t_versions =
                        [\<lparr>v_vietnamese = vietnamese', v_confidence = confidence, v_date = date,
                          v_source = source\<rparr>]\<rparr>
               in (d3\<lparr>terms := dict_set (terms d3) english' term_data\<rparr>, True)))"

text \<open>
  \<^verbatim>\<open>update_term\<close>, called with strings. The record is changed in place, so it keeps
  its position in the mapping. With records of this shape nothing in the \<^verbatim>\<open>try\<close>
  block can raise.
\<close>

definition update_term ::
  "(ustr \<Rightarrow> ustr) \<Rightarrow> dictionary \<Rightarrow> ustr \<Rightarrow> ustr \<Rightarrow> ustr \<Rightarrow> real \<Rightarrow> dictionary \<times> bool" where
  "update_term lower d english vietnamese source confidence =
     (let english' = py_strip (lower english);
          vietnamese' = py_strip vietnamese
      in case dict_get (terms d) english' of
           None \<Rightarrow> (d, False)
         | Some entry \<Rightarrow>
             let (date, d1) = now d;
                 entry1 = entry\<lparr>t_versions := t_versions entry @
                   [\<lparr>v_vietnamese = vietnamese', v_confidence = confidence, v_date = date,
                     v_source = source\<rparr>]\<rparr>;
                 entry2 = entry1\<lparr>t_vietnamese := vietnamese', t_confidence := confidence\<rparr>;
                 (updated, d2) = now d1;
                 entry3 = entry2\<lparr>t_last_updated := updated, t_source := source\<rparr>
             in (d2\<lparr>terms := dict_set (terms d2) english' entry3\<rparr>, True))"

definition get_translation :: "(ustr \<Rightarrow> ustr) \<Rightarrow> dictionary \<Rightarrow> ustr \<Rightarrow> term_data option" where
  "get_translation lower d english = dict_get (terms d) (py_strip (lower english))"

text \<open>
  \<^verbatim>\<open>sorted(matches, key=..., reverse=True)\<close>: the list is reversed, sorted by a stable
  ascending sort and reversed again. \<^verbatim>\<open>xs[:n]\<close> counts a negative \<open>n\<close> from the end.
\<close>

definition py_sorted_reverse :: "('a \<Rightarrow> 'k::linorder) \<Rightarrow> 'a list \<Rightarrow> 'a list" where
  "py_sorted_reverse key xs = rev (sort_key key (rev xs))"

definition py_slice_to :: "int \<Rightarrow> 'a list \<Rightarrow> 'a list" where
  "py_slice_to n xs = (if 0 \<le> n then take (nat n) xs else take (length xs - nat (- n)) xs)"

definition get_similar_terms :: "(ustr \<Rightarrow> ustr) \<Rightarrow> dictionary \<Rightarrow> ustr \<Rightarrow> int \<Rightarrow> (ustr \<times> real) list" where
  "get_similar_terms lower d trm n =
     (let trm' = py_strip (lower trm);
          matches =
            foldl (\<lambda>matches existing_term.
                     let r = ratio True trm' existing_term
                     in if 0.6 < r then matches @ [(existing_term, r)] else matches)
              [] (dict_keys (terms d))
      in py_slice_to n (py_sorted_reverse snd matches))"

subsection \<open>\<^verbatim>\<open>import_csv\<close>\<close>

text \<open>
  The file is given by the rows that \<^verbatim>\<open>csv.reader\<close> yields, the header first;
  \<^verbatim>\<open>None\<close> is a file that cannot be opened. \<^verbatim>\<open>csv.DictReader\<close> skips empty
  rows and pairs each other row with the header; a row shorter than the header is filled up
  with \<^verbatim>\<open>None\<close>, and of two columns with one name the later wins.
\<close>

datatype cell = No_column | None_cell | Text ustr

definition dict_row :: "ustr list \<Rightarrow> ustr list \<Rightarrow> ustr \<Rightarrow> cell" where
  "dict_row fieldnames row k =
     (case map_of (rev (zip fieldnames
             (map Some row @ replicate (length fieldnames - length row) None))) k of
        None \<Rightarrow> No_column
      | Some None \<Rightarrow> None_cell
      | Some (Some s) \<Rightarrow> Text s)"

definition dict_reader :: "ustr list list \<Rightarrow> (ustr \<Rightarrow> cell) list" where
  "dict_reader file =
     (case file of
        [] \<Rightarrow> []
      | fieldnames # rows \<Rightarrow> map (dict_row fieldnames) (filter (\<lambda>row. row \<noteq> []) rows))"

datatype py_error = KeyError | TypeError | ValueError | OSError

text \<open>\<^verbatim>\<open>row[k]\<close> raises KeyError for a column that the header does not have.\<close>

definition row_getitem :: "(ustr \<Rightarrow> cell) \<Rightarrow> ustr \<Rightarrow> py_error + ustr option" where
  "row_getitem row k =
     (case row k of No_column \<Rightarrow> Inl KeyError | None_cell \<Rightarrow> Inr None | Text s \<Rightarrow> Inr (Some s))"

text \<open>\<^verbatim>\<open>row.get('Category', 'general')\<close>: the default stands in for a missing column only.\<close>

definition row_category :: "(ustr \<Rightarrow> cell) \<Rightarrow> ustr option" where
  "row_category row =
     (case row (u ''Category'') of
        No_column \<Rightarrow> Some (u ''general'') | None_cell \<Rightarrow> None | Text s \<Rightarrow> Some s)"

text \<open>
  \<^verbatim>\<open>float(row.get('Confidence', 1.0))\<close>. The conversion of text is Python's
  \<^verbatim>\<open>float\<close>, a parameter here: \<open>pyfloat s = None\<close> when \<^verbatim>\<open>float(s)\<close> raises
  ValueError. \<^verbatim>\<open>float(None)\<close> raises TypeError.
\<close>

definition row_confidence :: "(ustr \<Rightarrow> real option) \<Rightarrow> (ustr \<Rightarrow> cell) \<Rightarrow> py_error + real" where
  "row_confidence pyfloat row =
     (case row (u ''Confidence'') of
        No_column \<Rightarrow> Inr 1
      | None_cell \<Rightarrow> Inl TypeError
      | Text s \<Rightarrow> (case pyfloat s of None \<Rightarrow> Inl ValueError | Some r \<Rightarrow> Inr r))"

text \<open>
  The loop of \<^verbatim>\<open>import_csv\<close>. The arguments of \<^verbatim>\<open>add_term\<close> are evaluated in the
  order they are written; an exception raised there leaves the loop, with the rows imported so
  far in place, and is what the \<^verbatim>\<open>except\<close> clause of \<^verbatim>\<open>import_csv\<close> logs. The
  result of \<^verbatim>\<open>add_term\<close> is not looked at.
\<close>

fun import_rows ::
  "(ustr \<Rightarrow> ustr) \<Rightarrow> (ustr \<Rightarrow> real option) \<Rightarrow> dictionary \<Rightarrow> (ustr \<Rightarrow> cell) list \<Rightarrow> ustr \<Rightarrow> dictionary \<times> py_error option"
  where
  "import_rows lower pyfloat d [] source = (d, None)"
| "import_rows lower pyfloat d (row # rows) source =
     (case row_getitem row (u ''English'') of
        Inl e \<Rightarrow> (d, Some e)
      | Inr english \<Rightarrow>
          (case row_getitem row (u ''Vietnamese'') of
             Inl e \<Rightarrow> (d, Some e)
           | Inr vietnamese \<Rightarrow>
               (case row_confidence pyfloat row of
                  Inl e \<Rightarrow> (d, Some e)
                | Inr confidence \<Rightarrow>
                    import_rows lower pyfloat
                      (fst (add_term lower d english vietnamese (row_category row) source confidence))
                      rows source)))"

definition import_csv ::
  "(ustr \<Rightarrow> ustr) \<Rightarrow> (ustr \<Rightarrow> real option) \<Rightarrow> dictionary \<Rightarrow> ustr list list option \<Rightarrow> ustr \<Rightarrow> dictionary \<times> py_error option"
  where
  "import_csv lower pyfloat d file source =
     (case file of
        None \<Rightarrow> (d, Some OSError)
      | Some rows \<Rightarrow> import_rows lower pyfloat d (dict_reader rows) source)"

text \<open>The states that the three mutating operations reach from an empty store.\<close>

inductive reachable :: "(ustr \<Rightarrow> ustr) \<Rightarrow> dictionary \<Rightarrow> bool" for lower where
  reachable_init: "reachable lower \<lparr>terms = [], clock = c, ticks = n\<rparr>"
| reachable_add:
    "reachable lower d \<Longrightarrow> reachable lower (fst (add_term lower d english vietnamese category source confidence))"
| reachable_update:
    "reachable lower d \<Longrightarrow> reachable lower (fst (update_term lower d english vietnamese source confidence))"
| reachable_import:
    "reachable lower d \<Longrightarrow> reachable lower (fst (import_csv lower pyfloat d file source))"

section \<open>The validator (\<^verbatim>\<open>TranslationValidator\<close>)\<close>

text \<open>
  The string \<^verbatim>\<open>vietnamese_chars\<close> of \<^verbatim>\<open>_has_missing_diacritics\<close>, code point by
  code point in the order of the source, and the seven letters of the character class that
  the same function searches for.
\<close>

definition vietnamese_chars :: ustr where
  "vietnamese_chars =
     [0xE0, 0xE1, 0x1EA3, 0xE3, 0x1EA1,
      0x103, 0x1EAF, 0x1EB1, 0x1EB3, 0x1EB5, 0x1EB7,
      0xE2, 0x1EA5, 0x1EA7, 0x1EA9, 0x1EAB, 0x1EAD,
      0xE8, 0xE9, 0x1EBB, 0x1EBD, 0x1EB9,
      0xEA, 0x1EBF, 0x1EC1, 0x1EC3, 0x1EC5, 0x1EC7,
      0xEC, 0xED, 0x1EC9, 0x129, 0x1ECB,
      0xF2, 0xF3, 0x1ECF, 0xF5, 0x1ECD,
      0xF4, 0x1ED1, 0x1ED3, 0x1ED5, 0x1ED7, 0x1ED9,
      0x1A1, 0x1EDB, 0x1EDD, 0x1EDF, 0x1EE1, 0x1EE3,
      0xF9, 0xFA, 0x1EE7, 0x169, 0x1EE5,
      0x1B0, 0x1EE9, 0x1EEB, 0x1EED, 0x1EEF, 0x1EF1,
      0x1EF3, 0xFD, 0x1EF7, 0x1EF9, 0x1EF5,
      0x111]"

definition base_letters :: ustr where
  "base_letters = [0x103, 0xE2, 0x111, 0xEA, 0xF4, 0x1A1, 0x1B0]"

definition has_missing_diacritics :: "(ustr \<Rightarrow> ustr) \<Rightarrow> ustr \<Rightarrow> bool" where
  "has_missing_diacritics lower text =
     (let text_lower = lower text;
          has_vietnamese_words = list_ex (\<lambda>c. c \<in> set base_letters) text_lower;
          has_diacritics = list_ex (\<lambda>c. c \<in> set text_lower) vietnamese_chars
      in has_vietnamese_words \<and> \<not> has_diacritics)"

text \<open>
  The character class of \<^verbatim>\<open>_check_formatting\<close>, without its negation: the ranges
  \<^verbatim>\<open>a-z\<close>, \<^verbatim>\<open>A-Z\<close> and \<^verbatim>\<open>0-9\<close>, the letters of \<^verbatim>\<open>vietnamese_chars\<close>
  written out once more, capital D with stroke (U+0110), \<^verbatim>\<open>\s\<close>, hyphen, period, comma
  and the two parentheses. The pattern is compiled without flags.
\<close>

definition allowed_char :: "codepoint \<Rightarrow> bool" where
  "allowed_char c \<longleftrightarrow>
     (0x61 \<le> c \<and> c \<le> 0x7A) \<or> (0x41 \<le> c \<and> c \<le> 0x5A) \<or> (0x30 \<le> c \<and> c \<le> 0x39) \<or>
     c \<in> set vietnamese_chars \<or> c = 0x110 \<or> py_isspace c \<or>
     c = 0x2D \<or> c = 0x2E \<or> c = 0x2C \<or> c = 0x28 \<or> c = 0x29"

definition check_formatting :: "ustr \<Rightarrow> bool" where
  "check_formatting text =
     (if text = [] then False
      else if text \<noteq> py_strip text then False
      else if py_contains [0x20, 0x20] text then False
      else if list_ex (\<lambda>c. \<not> allowed_char c) text then False
      else True)"

record similar_term =
  s_english :: ustr
  s_vietnamese :: ustr
  s_similarity :: real

text \<open>
  The result dictionary of \<^verbatim>\<open>validate_translation\<close>; the key
  \<^verbatim>\<open>similar_terms\<close> is present only when similar terms were found.
\<close>

record results =
  r_valid :: bool
  r_issues :: "ustr list"
  r_confidence :: real
  r_suggestions :: "ustr list"
  r_similar_terms :: "similar_term list option"

text \<open>
  A comprehension whose element expression may raise: the first exception ends it.
  \<^verbatim>\<open>self.dictionary.get_translation(term)["vietnamese"]\<close> raises TypeError when the
  lookup returns \<^verbatim>\<open>None\<close>; neither function of the validator catches it.
\<close>

fun collect :: "('a \<Rightarrow> py_error + 'b) \<Rightarrow> 'a list \<Rightarrow> py_error + 'b list" where
  "collect f [] = Inr []"
| "collect f (x # xs) =
     (case f x of
        Inl e \<Rightarrow> Inl e
      | Inr y \<Rightarrow> (case collect f xs of Inl e \<Rightarrow> Inl e | Inr ys \<Rightarrow> Inr (y # ys)))"

definition similar_entry :: "(ustr \<Rightarrow> ustr) \<Rightarrow> dictionary \<Rightarrow> ustr \<times> real \<Rightarrow> py_error + similar_term" where
  "similar_entry lower d p =
     (case p of (trm, score) \<Rightarrow>
        (case get_translation lower d trm of
           None \<Rightarrow> Inl TypeError
         | Some entry \<Rightarrow>
             Inr \<lparr>s_english = trm, s_vietnamese = t_vietnamese entry, s_similarity = score\<rparr>))"

definition validate_translation :: "(ustr \<Rightarrow> ustr) \<Rightarrow> dictionary \<Rightarrow> ustr \<Rightarrow> ustr \<Rightarrow> py_error + results" where
  "validate_translation lower d english vietnamese =
     (let results0 =
            \<lparr>r_valid = True, r_issues = [], r_confidence = 1, r_suggestions = [],
             r_similar_terms = None\<rparr>;
          results1 =
            (case get_translation lower d english of
               None \<Rightarrow> results0
             | Some existing \<Rightarrow>
                 if lower (t_vietnamese existing) \<noteq> lower vietnamese
                 then results0
                   \<lparr>r_valid := False,
                    r_issues := r_issues results0 @ [u ''Translation differs from dictionary''],
                    r_suggestions := r_suggestions results0 @ [t_vietnamese existing],
                    r_confidence := r_confidence results0 * 0.7\<rparr>
                 else results0);
          results2 =
            (if has_missing_diacritics lower vietnamese
             then results1
               \<lparr>r_valid := False,
                r_issues := r_issues results1 @ [u ''Missing diacritical marks''],
                r_confidence := r_confidence results1 * 0.8\<rparr>
             else results1);
          results3 =
            (if \<not> check_formatting vietnamese
             then results2
               \<lparr>r_valid := False,
                r_issues := r_issues results2 @ [u ''Incorrect formatting''],
                r_confidence := r_confidence results2 * 0.9\<rparr>
             else results2);
          similar_terms = get_similar_terms lower d english 5
      in if similar_terms \<noteq> []
         then (case collect (similar_entry lower d) similar_terms of
                 Inl e \<Rightarrow> Inl e
               | Inr entries \<Rightarrow> Inr (results3\<lparr>r_similar_terms := Some entries\<rparr>))
         else Inr results3)"

definition related_line :: "(ustr \<Rightarrow> ustr) \<Rightarrow> dictionary \<Rightarrow> ustr \<times> real \<Rightarrow> py_error + ustr" where
  "related_line lower d p =
     (case p of (trm, score) \<Rightarrow>
        (case get_translation lower d trm of
           None \<Rightarrow> Inl TypeError
         | Some term_data \<Rightarrow> Inr (u ''- '' @ trm @ u '': '' @ t_vietnamese term_data)))"

definition suggest_improvements :: "(ustr \<Rightarrow> ustr) \<Rightarrow> dictionary \<Rightarrow> ustr \<Rightarrow> ustr \<Rightarrow> py_error + ustr list" where
  "suggest_improvements lower d english vietnamese =
     (let suggestions1 =
            (case get_translation lower d english of
               None \<Rightarrow> []
             | Some existing \<Rightarrow>
                 if t_vietnamese existing \<noteq> vietnamese
                 then [u ''Consider using established translation: '' @ t_vietnamese existing]
                 else []);
          suggestions2 =
            (if has_missing_diacritics lower vietnamese
             then suggestions1 @ [u ''Add appropriate diacritical marks to Vietnamese text'']
             else suggestions1);
          suggestions3 =
            (if \<not> check_formatting vietnamese
             then suggestions2 @ [u ''Fix formatting issues (whitespace, special characters)'']
             else suggestions2);
          similar_terms = get_similar_terms lower d english 5
      in if similar_terms \<noteq> []
         then (case collect (related_line lower d) (py_slice_to 3 similar_terms) of
                 Inl e \<Rightarrow> Inl e
               | Inr lines \<Rightarrow> Inr (suggestions3 @ [u ''Related terms for reference:''] @ lines))
         else Inr suggestions3)"

section \<open>Facts about the string functions\<close>

text \<open>
  \<open>latin_lower\<close> leaves white space alone and never produces it, and its result is already
  in lower case. So it commutes with \<^verbatim>\<open>.strip()\<close>, and normalising a key twice with it
  is normalising it once: the hypotheses on lower-casing that some theorems below carry hold
  for it.
\<close>

lemma latin_lower_cp_space: "py_isspace c \<Longrightarrow> latin_lower_cp c = [c]"
  unfolding py_isspace_def latin_lower_cp_def by (elim disjE conjE) simp_all

lemma latin_lower_cp_cases [case_names ascii latin1 dotted_I diaeresis_Y even_pair odd_pair horn sharp_S additional same]:
  obtains "0x41 \<le> c \<and> c \<le> 0x5A" "latin_lower_cp c = [c + 32]"
    | "0xC0 \<le> c \<and> c \<le> 0xDE \<and> c \<noteq> 0xD7" "latin_lower_cp c = [c + 32]"
    | "c = 0x130" "latin_lower_cp c = [0x69, 0x307]"
    | "c = 0x178" "latin_lower_cp c = [0xFF]"
    | "(0x100 \<le> c \<and> c \<le> 0x137 \<or> 0x14A \<le> c \<and> c \<le> 0x177) \<and> even c" "latin_lower_cp c = [c + 1]"
    | "(0x139 \<le> c \<and> c \<le> 0x148 \<or> 0x179 \<le> c \<and> c \<le> 0x17E) \<and> odd c" "latin_lower_cp c = [c + 1]"
    | "c = 0x1A0 \<or> c = 0x1AF" "latin_lower_cp c = [c + 1]"
    | "c = 0x1E9E" "latin_lower_cp c = [0xDF]"
    | "0x1E00 \<le> c \<and> c \<le> 0x1EFF \<and> even c \<and> \<not> (0x1E96 \<le> c \<and> c \<le> 0x1E9F)" "latin_lower_cp c = [c + 1]"
    | "latin_lower_cp c = [c]"
proof -
  define a1 where "a1 \<longleftrightarrow> 0x41 \<le> c \<and> c \<le> 0x5A"
  define a2 where "a2 \<longleftrightarrow> 0xC0 \<le> c \<and> c \<le> 0xDE \<and> c \<noteq> 0xD7"
  define a3 where "a3 \<longleftrightarrow> c = 0x130"
  define a4 where "a4 \<longleftrightarrow> c = 0x178"
  define a5 where "a5 \<longleftrightarrow> (0x100 \<le> c \<and> c \<le> 0x137 \<or> 0x14A \<le> c \<and> c \<le> 0x177) \<and> even c"
  define a6 where "a6 \<longleftrightarrow> (0x139 \<le> c \<and> c \<le> 0x148 \<or> 0x179 \<le> c \<and> c \<le> 0x17E) \<and> odd c"
  define a7 where "a7 \<longleftrightarrow> c = 0x1A0 \<or> c = 0x1AF"
  define a8 where "a8 \<longleftrightarrow> c = 0x1E9E"
  define a9 where "a9 \<longleftrightarrow> 0x1E00 \<le> c \<and> c \<le> 0x1EFF \<and> even c \<and> \<not> (0x1E96 \<le> c \<and> c \<le> 0x1E9F)"
  note defs = a1_def a2_def a3_def a4_def a5_def a6_def a7_def a8_def a9_def
  have eq: "latin_lower_cp c =
      (if a1 then [c + 32] else if a2 then [c + 32] else if a3 then [0x69, 0x307]
       else if a4 then [0xFF] else if a5 then [c + 1] else if a6 then [c + 1]
       else if a7 then [c + 1] else if a8 then [0xDF] else if a9 then [c + 1] else [c])"
    unfolding latin_lower_cp_def defs ..
  have r1: "a1 \<Longrightarrow> latin_lower_cp c = [c + 32] \<Longrightarrow> thesis" unfolding a1_def by (rule that(1))
  have r2: "a2 \<Longrightarrow> latin_lower_cp c = [c + 32] \<Longrightarrow> thesis" unfolding a2_def by (rule that(2))
  have r3: "a3 \<Longrightarrow> latin_lower_cp c = [0x69, 0x307] \<Longrightarrow> thesis" unfolding a3_def by (rule that(3))
  have r4: "a4 \<Longrightarrow> latin_lower_cp c = [0xFF] \<Longrightarrow> thesis" unfolding a4_def by (rule that(4))
  have r5: "a5 \<Longrightarrow> latin_lower_cp c = [c + 1] \<Longrightarrow> thesis" unfolding a5_def by (rule that(5))
  have r6: "a6 \<Longrightarrow> latin_lower_cp c = [c + 1] \<Longrightarrow> thesis" unfolding a6_def by (rule that(6))
  have r7: "a7 \<Longrightarrow> latin_lower_cp c = [c + 1] \<Longrightarrow> thesis" unfolding a7_def by (rule that(7))
  have r8: "a8 \<Longrightarrow> latin_lower_cp c = [0xDF] \<Longrightarrow> thesis" unfolding a8_def by (rule that(8))
  have r9: "a9 \<Longrightarrow> latin_lower_cp c = [c + 1] \<Longrightarrow> thesis" unfolding a9_def by (rule that(9))
  consider a1 | "\<not> a1" a2 | "\<not> a1" "\<not> a2" a3 | "\<not> a1" "\<not> a2" "\<not> a3" a4
    | "\<not> a1" "\<not> a2" "\<not> a3" "\<not> a4" a5
    | "\<not> a1" "\<not> a2" "\<not> a3" "\<not> a4" "\<not> a5" a6
    | "\<not> a1" "\<not> a2" "\<not> a3" "\<not> a4" "\<not> a5" "\<not> a6" a7
    | "\<not> a1" "\<not> a2" "\<not> a3" "\<not> a4" "\<not> a5" "\<not> a6" "\<not> a7" a8
    | "\<not> a1" "\<not> a2" "\<not> a3" "\<not> a4" "\<not> a5" "\<not> a6" "\<not> a7" "\<not> a8" a9
    | "\<not> a1" "\<not> a2" "\<not> a3" "\<not> a4" "\<not> a5" "\<not> a6" "\<not> a7" "\<not> a8" "\<not> a9"
    by blast
  then show thesis
  proof cases
    case 1 with eq r1 show ?thesis by simp
  next
    case 2 with eq r2 show ?thesis by simp
  next
    case 3 with eq r3 show ?thesis by simp
  next
    case 4 with eq r4 show ?thesis by simp
  next
    case 5 with eq r5 show ?thesis by simp
  next
    case 6 with eq r6 show ?thesis by simp
  next
    case 7 with eq r7 show ?thesis by simp
  next
    case 8 with eq r8 show ?thesis by simp
  next
    case 9 with eq r9 show ?thesis by simp
  next
    case 10 with eq that(10) show ?thesis by simp
  qed
qed

lemma latin_fix_ascii: "0x61 \<le> x \<and> x \<le> 0x7A \<Longrightarrow> latin_lower_cp x = [x]"
  by (simp add: latin_lower_cp_def)

lemma latin_fix_latin1: "0xDF \<le> x \<and> x \<le> 0xFF \<Longrightarrow> latin_lower_cp x = [x]"
  by (simp add: latin_lower_cp_def)

lemma latin_fix_horn: "x = 0x1A1 \<or> x = 0x1B0 \<or> x = 0x307 \<Longrightarrow> latin_lower_cp x = [x]"
  unfolding latin_lower_cp_def by (elim disjE) simp_all

lemma latin_fix_odd1: "odd x \<Longrightarrow> 0x101 \<le> x \<and> x \<le> 0x138 \<Longrightarrow> latin_lower_cp x = [x]"
  unfolding latin_lower_cp_def by (cases "x = 0x130") simp_all

lemma latin_fix_odd2: "odd x \<Longrightarrow> 0x14B \<le> x \<and> x \<le> 0x178 \<Longrightarrow> latin_lower_cp x = [x]"
  unfolding latin_lower_cp_def by (cases "x = 0x178") simp_all

lemma latin_fix_even1: "even x \<Longrightarrow> 0x13A \<le> x \<and> x \<le> 0x149 \<Longrightarrow> latin_lower_cp x = [x]"
  by (simp add: latin_lower_cp_def)

lemma latin_fix_even2: "even x \<Longrightarrow> 0x17A \<le> x \<and> x \<le> 0x17F \<Longrightarrow> latin_lower_cp x = [x]"
  by (simp add: latin_lower_cp_def)

lemma latin_fix_additional: "odd x \<Longrightarrow> 0x1E01 \<le> x \<and> x \<le> 0x1F00 \<Longrightarrow> latin_lower_cp x = [x]"
  unfolding latin_lower_cp_def by (cases "x = 0x1E9E") simp_all

lemma nonspace_ranges:
  "0x21 \<le> x \<and> x \<le> 0x84 \<or> 0xA1 \<le> x \<and> x \<le> 0x167F \<or> 0x1681 \<le> x \<and> x \<le> 0x1FFF \<Longrightarrow>
   \<not> py_isspace x"
  unfolding py_isspace_def by arith
lemma latin_lower_cp_out_range:
  assumes "x \<in> set (latin_lower_cp c)" "latin_lower_cp c \<noteq> [c]"
  shows "0x61 \<le> x \<and> x \<le> 0x7A \<or> 0xDF \<le> x \<and> x \<le> 0x307 \<or> 0x1E01 \<le> x \<and> x \<le> 0x1F00"
proof (cases c rule: latin_lower_cp_cases)
  case ascii
  with assms(1) have "x = c + 32" by simp
  with ascii(1) show ?thesis by arith
next
  case latin1
  with assms(1) have "x = c + 32" by simp
  with latin1(1) show ?thesis by arith
next
  case dotted_I
  with assms(1) have "x = 0x69 \<or> x = 0x307" by simp
  then show ?thesis by arith
next
  case diaeresis_Y
  with assms(1) have "x = 0xFF" by simp
  then show ?thesis by simp
next
  case even_pair
  with assms(1) have "x = c + 1" by simp
  with even_pair(1) show ?thesis by arith
next
  case odd_pair
  with assms(1) have "x = c + 1" by simp
  with odd_pair(1) show ?thesis by arith
next
  case horn
  with assms(1) have "x = c + 1" by simp
  with horn(1) show ?thesis by arith
next
  case sharp_S
  with assms(1) have "x = 0xDF" by simp
  then show ?thesis by simp
next
  case additional
  with assms(1) have "x = c + 1" by simp
  with additional(1) show ?thesis by arith
next
  case same
  with assms(2) show ?thesis by simp
qed

lemma latin_lower_cp_nonspace:
  assumes "\<not> py_isspace c" "x \<in> set (latin_lower_cp c)"
  shows "\<not> py_isspace x"
proof (cases "latin_lower_cp c = [c]")
  case True
  with assms show ?thesis by simp
next
  case False
  from latin_lower_cp_out_range [OF assms(2) False]
  have "0x21 \<le> x \<and> x \<le> 0x84 \<or> 0xA1 \<le> x \<and> x \<le> 0x167F \<or> 0x1681 \<le> x \<and> x \<le> 0x1FFF"
    by arith
  then show ?thesis by (rule nonspace_ranges)
qed

lemma latin_lower_cp_fixed:
  assumes "x \<in> set (latin_lower_cp c)"
  shows "latin_lower_cp x = [x]"
proof (cases c rule: latin_lower_cp_cases)
  case ascii
  with assms have "x = c + 32" by simp
  with ascii(1) have "0x61 \<le> x \<and> x \<le> 0x7A" by arith
  then show ?thesis by (rule latin_fix_ascii)
next
  case latin1
  with assms have "x = c + 32" by simp
  with latin1(1) have "0xDF \<le> x \<and> x \<le> 0xFF" by arith
  then show ?thesis by (rule latin_fix_latin1)
next
  case dotted_I
  with assms have "x = 0x69 \<or> x = 0x307" by simp
  then show ?thesis
  proof
    assume "x = 0x69"
    then have "0x61 \<le> x \<and> x \<le> 0x7A" by simp
    then show ?thesis by (rule latin_fix_ascii)
  next
    assume "x = 0x307"
    then show ?thesis by (simp add: latin_fix_horn)
  qed
next
  case diaeresis_Y
  with assms have "0xDF \<le> x \<and> x \<le> 0xFF" by simp
  then show ?thesis by (rule latin_fix_latin1)
next
  case even_pair
  with assms have x: "x = c + 1" by simp
  from even_pair(1) have "even c" by simp
  with x have odd: "odd x" by simp
  from even_pair(1) x
  have "0x101 \<le> x \<and> x \<le> 0x138 \<or> 0x14B \<le> x \<and> x \<le> 0x178" by arith
  then show ?thesis
  proof
    assume "0x101 \<le> x \<and> x \<le> 0x138"
    with odd show ?thesis by (rule latin_fix_odd1)
  next
    assume "0x14B \<le> x \<and> x \<le> 0x178"
    with odd show ?thesis by (rule latin_fix_odd2)
  qed
next
  case odd_pair
  with assms have x: "x = c + 1" by simp
  from odd_pair(1) have "odd c" by simp
  with x have even: "even x" by simp
  from odd_pair(1) x
  have "0x13A \<le> x \<and> x \<le> 0x149 \<or> 0x17A \<le> x \<and> x \<le> 0x17F" by arith
  then show ?thesis
  proof
    assume "0x13A \<le> x \<and> x \<le> 0x149"
    with even show ?thesis by (rule latin_fix_even1)
  next
    assume "0x17A \<le> x \<and> x \<le> 0x17F"
    with even show ?thesis by (rule latin_fix_even2)
  qed
next
  case horn
  with assms have "x = c + 1" by simp
  with horn(1) have "x = 0x1A1 \<or> x = 0x1B0 \<or> x = 0x307" by arith
  then show ?thesis by (rule latin_fix_horn)
next
  case sharp_S
  with assms have "0xDF \<le> x \<and> x \<le> 0xFF" by simp
  then show ?thesis by (rule latin_fix_latin1)
next
  case additional
  with assms have x: "x = c + 1" by simp
  from additional(1) have "even c" by simp
  with x have odd: "odd x" by simp
  from additional(1) x have "0x1E01 \<le> x \<and> x \<le> 0x1F00" by arith
  with odd show ?thesis by (rule latin_fix_additional)
next
  case same
  with assms show ?thesis by simp
qed

lemma latin_lower_idem: "latin_lower (latin_lower s) = latin_lower s"
proof -
  have one: "concat (map latin_lower_cp xs) = xs" if "\<forall>x \<in> set xs. latin_lower_cp x = [x]" for xs
    using that by (induction xs) simp_all
  have "concat (map latin_lower_cp (latin_lower_cp c)) = latin_lower_cp c" for c
    by (rule one) (simp add: latin_lower_cp_fixed)
  then show ?thesis
    unfolding latin_lower_def by (induction s) simp_all
qed

lemma dropWhile_space_concat:
  assumes sp: "\<And>c. py_isspace c \<Longrightarrow> g c = [c]"
    and ns: "\<And>c. \<not> py_isspace c \<Longrightarrow> g c \<noteq> [] \<and> \<not> py_isspace (hd (g c))"
  shows "dropWhile py_isspace (concat (map g s)) = concat (map g (dropWhile py_isspace s))"
proof (induction s)
  case Nil
  show ?case by simp
next
  case (Cons c s)
  show ?case
  proof (cases "py_isspace c")
    case True
    with sp [OF True] Cons.IH show ?thesis by simp
  next
    case False
    from ns [OF False] obtain y ys where g: "g c = y # ys" and y: "\<not> py_isspace y"
      by (cases "g c") auto
    with False show ?thesis by simp
  qed
qed

lemma latin_lower_cp_nonempty: "latin_lower_cp c \<noteq> []"
  by (cases c rule: latin_lower_cp_cases) simp_all

lemma dropWhile_space_lower:
  "dropWhile py_isspace (latin_lower s) = latin_lower (dropWhile py_isspace s)"
  unfolding latin_lower_def
proof (rule dropWhile_space_concat)
  fix c assume "py_isspace c"
  then show "latin_lower_cp c = [c]" by (rule latin_lower_cp_space)
next
  fix c assume c: "\<not> py_isspace c"
  have ne: "latin_lower_cp c \<noteq> []" by (rule latin_lower_cp_nonempty)
  then have "hd (latin_lower_cp c) \<in> set (latin_lower_cp c)" by simp
  with c have "\<not> py_isspace (hd (latin_lower_cp c))" by (rule latin_lower_cp_nonspace)
  with ne show "latin_lower_cp c \<noteq> [] \<and> \<not> py_isspace (hd (latin_lower_cp c))" by simp
qed

lemma dropWhile_space_lower_rev:
  "dropWhile py_isspace (rev (latin_lower s)) = rev (latin_lower (rev (dropWhile py_isspace (rev s))))"
proof -
  have "rev (latin_lower s) = concat (map (rev \<circ> latin_lower_cp) (rev s))" for s
    by (simp add: latin_lower_def rev_concat rev_map)
  moreover have "dropWhile py_isspace (concat (map (rev \<circ> latin_lower_cp) t)) =
      concat (map (rev \<circ> latin_lower_cp) (dropWhile py_isspace t))" for t
  proof (rule dropWhile_space_concat)
    fix c assume "py_isspace c"
    then show "(rev \<circ> latin_lower_cp) c = [c]" by (simp add: latin_lower_cp_space)
  next
    fix c assume c: "\<not> py_isspace c"
    have ne: "latin_lower_cp c \<noteq> []" by (rule latin_lower_cp_nonempty)
    then have "last (latin_lower_cp c) \<in> set (latin_lower_cp c)" by simp
    with c have "\<not> py_isspace (last (latin_lower_cp c))" by (rule latin_lower_cp_nonspace)
    with ne show "(rev \<circ> latin_lower_cp) c \<noteq> [] \<and> \<not> py_isspace (hd ((rev \<circ> latin_lower_cp) c))"
      by (simp add: hd_rev)
  qed
  ultimately show ?thesis by simp
qed

lemma strip_lower_commute: "py_strip (latin_lower s) = latin_lower (py_strip s)"
  by (simp add: py_strip_def dropWhile_space_lower dropWhile_space_lower_rev)

lemma py_strip_idem: "py_strip (py_strip s) = py_strip s"
proof -
  have a: "dropWhile P (rev (dropWhile P (rev t))) = rev (dropWhile P (rev (dropWhile P t)))"
    for P :: "'a \<Rightarrow> bool" and t
  proof (induction t)
    case Nil
    show ?case by simp
  next
    case (Cons x t)
    show ?case
    proof (cases "P x")
      case True
      have "dropWhile P (rev (dropWhile P (rev t @ [x]))) =
            dropWhile P (rev (dropWhile P (rev t)))"
        using True by (simp add: dropWhile_append3 dropWhile_append)
          (metis (full_types) dropWhile.simps(1) dropWhile_append2 rev.simps(1) rev_append rev.simps(2)
            append_Nil dropWhile_eq_Nil_conv set_rev)
      with True Cons.IH show ?thesis by simp
    next
      case False
      then have "rev (dropWhile P (rev t @ [x])) \<noteq> [] \<and> hd (rev (dropWhile P (rev t @ [x]))) = x"
        by (simp add: dropWhile_append hd_rev dropWhile_eq_Nil_conv)
      with False show ?thesis
        by (cases "rev (dropWhile P (rev t @ [x]))") auto
    qed
  qed
  have b: "dropWhile P (dropWhile P t) = dropWhile P t" for P :: "'a \<Rightarrow> bool" and t
    by (simp add: dropWhile_idem)
  show ?thesis
    unfolding py_strip_def by (simp add: a b)
qed

lemma normalize_idem:
  "py_strip (latin_lower (py_strip (latin_lower s))) = py_strip (latin_lower s)"
  by (simp add: strip_lower_commute latin_lower_idem py_strip_idem)

section \<open>The store operations\<close>

lemma dict_get_dict_set:
  "dict_get (dict_set kvs k v) k' = (if k' = k then Some v else dict_get kvs k')"
  by (induction kvs) (auto simp: dict_get_def)

lemma map_of_dict_set: "map_of (dict_set kvs k v) = (map_of kvs)(k \<mapsto> v)"
  by (rule ext) (use dict_get_dict_set [of kvs k v] in \<open>simp add: dict_get_def\<close>)

lemma dict_keys_dict_set:
  "dict_keys (dict_set kvs k v) =
     (if k \<in> set (dict_keys kvs) then dict_keys kvs else dict_keys kvs @ [k])"
  by (induction kvs) (force simp: dict_keys_def)+

lemma set_dict_set: "set (dict_set kvs k v) \<subseteq> insert (k, v) (set kvs)"
  by (induction kvs) (auto split: if_splits)

lemma dict_get_keys: "dict_get kvs k \<noteq> None \<longleftrightarrow> k \<in> set (dict_keys kvs)"
  by (simp add: dict_get_def dict_keys_def map_of_eq_None_iff)

lemma add_term_Some:
  "add_term lower d (Some e) (Some v) category source confidence =
     (d\<lparr>terms := dict_set (terms d) (py_strip (lower e))
            \<lparr>t_vietnamese = py_strip v, t_category = category, t_source = source,
             t_confidence = confidence, t_added_date = clock d (ticks d),
             t_last_updated = clock d (ticks d + 1),
             t_versions =
               [\<lparr>v_vietnamese = py_strip v, v_confidence = confidence,
                 v_date = clock d (ticks d + 2), v_source = source\<rparr>]\<rparr>,
        ticks := ticks d + 3\<rparr>, True)"
  by (simp add: add_term_def now_def Let_def)

lemma add_term_fails:
  "snd (add_term lower d english vietnamese category source confidence) = False \<longleftrightarrow>
     english = None \<or> vietnamese = None"
  by (cases english; cases vietnamese) (simp_all add: add_term_def now_def Let_def split: prod.splits)

lemma add_term_None:
  "english = None \<or> vietnamese = None \<Longrightarrow>
     add_term lower d english vietnamese category source confidence = (d, False)"
  by (cases english; cases vietnamese) (simp_all add: add_term_def)

lemma update_term_absent:
  "dict_get (terms d) (py_strip (lower english)) = None \<Longrightarrow>
     update_term lower d english vietnamese source confidence = (d, False)"
  by (simp add: update_term_def Let_def)

lemma update_term_present:
  "dict_get (terms d) (py_strip (lower english)) = Some entry \<Longrightarrow>
     update_term lower d english vietnamese source confidence =
       (d\<lparr>ticks := ticks d + 2,
          terms := dict_set (terms d) (py_strip (lower english))
              (entry\<lparr>t_versions := t_versions entry @
                       [\<lparr>v_vietnamese = py_strip vietnamese, v_confidence = confidence,
                         v_date = clock d (ticks d), v_source = source\<rparr>],
                     t_vietnamese := py_strip vietnamese, t_confidence := confidence,
                     t_last_updated := clock d (ticks d + 1), t_source := source\<rparr>)\<rparr>, True)"
  by (simp add: update_term_def now_def Let_def)

text \<open>
  C1. A successful \<^verbatim>\<open>add_term\<close> was given strings \<open>E\<close> and \<open>V\<close>. Afterwards the
  normalised key of \<open>E\<close> holds a record whose current translation is \<open>trim(V)\<close> and whose
  version history is the single entry made by this call. Every field of the record comes from
  the arguments and the clock, none from what the store held before: an earlier record of the
  key is gone with its history. Every other key keeps its record, and
  \<^verbatim>\<open>get_translation(E)\<close> returns the new record. The code computes the key as
  \<^verbatim>\<open>E.lower().strip()\<close>; whenever lower-casing \<open>E\<close> commutes with trimming it (as it does
  with \<^verbatim>\<open>str.lower\<close>, which neither makes nor removes white space), that key is
  \<open>lower(trim(E))\<close>.
\<close>

theorem add_term_overwrites:
  assumes "add_term lower d english vietnamese category source confidence = (d', True)"
  shows "\<exists>E V r. english = Some E \<and> vietnamese = Some V \<and>
           dict_get (terms d') (py_strip (lower E)) = Some r \<and>
           (lower (py_strip E) = py_strip (lower E) \<longrightarrow>
              dict_get (terms d') (lower (py_strip E)) = Some r) \<and>
           get_translation lower d' E = Some r \<and>
           t_vietnamese r = py_strip V \<and>
           t_versions r =
             [\<lparr>v_vietnamese = py_strip V, v_confidence = confidence,
               v_date = clock d (ticks d + 2), v_source = source\<rparr>] \<and>
           length (t_versions r) = 1 \<and>
           t_category r = category \<and> t_source r = source \<and> t_confidence r = confidence \<and>
           t_added_date r = clock d (ticks d) \<and> t_last_updated r = clock d (ticks d + 1) \<and>
           map_of (terms d') = (map_of (terms d))(py_strip (lower E) \<mapsto> r)"
proof -
  from assms add_term_None [of english vietnamese lower d category source confidence]
  obtain E V where ev: "english = Some E" "vietnamese = Some V"
    by (cases english; cases vietnamese) auto
  let ?r = "\<lparr>t_vietnamese = py_strip V, t_category = category, t_source = source,
             t_confidence = confidence, t_added_date = clock d (ticks d),
             t_last_updated = clock d (ticks d + 1),
             t_versions =
               [\<lparr>v_vietnamese = py_strip V, v_confidence = confidence,
                 v_date = clock d (ticks d + 2), v_source = source\<rparr>]\<rparr>"
  from assms ev have d': "terms d' = dict_set (terms d) (py_strip (lower E)) ?r"
    by (auto simp: add_term_Some)
  then have g: "dict_get (terms d') (py_strip (lower E)) = Some ?r"
    by (simp add: dict_get_dict_set)
  then have c: "lower (py_strip E) = py_strip (lower E) \<longrightarrow>
      dict_get (terms d') (lower (py_strip E)) = Some ?r"
    by simp
  from g have t: "get_translation lower d' E = Some ?r"
    by (simp add: get_translation_def)
  from d' have m: "map_of (terms d') = (map_of (terms d))(py_strip (lower E) \<mapsto> ?r)"
    by (simp add: map_of_dict_set)
  from ev g c t m show ?thesis by simp
qed

theorem add_term_overwrites_witness:
  "get_translation latin_lower
     (fst (add_term latin_lower
        (fst (add_term latin_lower \<lparr>terms = [], clock = id, ticks = 0\<rparr>
           (Some (u ''Fever '')) (Some (u ''sot'')) (Some (u ''general'')) (u ''manual'') 1))
        (Some (u '' fever'')) (Some (u '' om '')) (Some (u ''general'')) (u ''manual'') 0.5))
     (u ''FEVER'') =
   Some \<lparr>t_vietnamese = u ''om'', t_category = Some (u ''general''), t_source = u ''manual'',
         t_confidence = 0.5, t_added_date = 3, t_last_updated = 4,
         t_versions =
           [\<lparr>v_vietnamese = u ''om'', v_confidence = 0.5, v_date = 5, v_source = u ''manual''\<rparr>]\<rparr>"
proof -
  define d0 where "d0 = fst (add_term latin_lower \<lparr>terms = [], clock = id, ticks = 0\<rparr>
           (Some (u ''Fever '')) (Some (u ''sot'')) (Some (u ''general'')) (u ''manual'') 1)"
  obtain d' where run: "add_term latin_lower d0 (Some (u '' fever'')) (Some (u '' om ''))
      (Some (u ''general'')) (u ''manual'') 0.5 = (d', True)"
    by (simp add: add_term_Some)
  have d0: "clock d0 = id" "ticks d0 = 3"
    by (simp_all add: d0_def add_term_Some)
  have k: "py_strip (latin_lower (u ''FEVER'')) = py_strip (latin_lower (u '' fever''))"
    by (simp add: u_def py_strip_def latin_lower_def latin_lower_cp_def py_isspace_def)
  have v: "py_strip (u '' om '') = u ''om''"
    by (simp add: u_def py_strip_def py_isspace_def)
  from add_term_overwrites [OF run]
  obtain r where r: "get_translation latin_lower d' (u '' fever'') = Some r"
      "t_vietnamese r = py_strip (u '' om '')"
      "t_versions r =
         [\<lparr>v_vietnamese = py_strip (u '' om ''), v_confidence = 0.5,
           v_date = clock d0 (ticks d0 + 2), v_source = u ''manual''\<rparr>]"
      "t_category r = Some (u ''general'')" "t_source r = u ''manual''" "t_confidence r = 0.5"
      "t_added_date r = clock d0 (ticks d0)" "t_last_updated r = clock d0 (ticks d0 + 1)"
    by auto
  from r(2-) have "r = \<lparr>t_vietnamese = u ''om'', t_category = Some (u ''general''),
         t_source = u ''manual'', t_confidence = 0.5, t_added_date = 3, t_last_updated = 4,
         t_versions =
           [\<lparr>v_vietnamese = u ''om'', v_confidence = 0.5, v_date = 5, v_source = u ''manual''\<rparr>]\<rparr>"
    by (cases r) (simp add: d0 v)
  with r(1) k have "get_translation latin_lower d' (u ''FEVER'') =
   Some \<lparr>t_vietnamese = u ''om'', t_category = Some (u ''general''), t_source = u ''manual'',
         t_confidence = 0.5, t_added_date = 3, t_last_updated = 4,
         t_versions =
           [\<lparr>v_vietnamese = u ''om'', v_confidence = 0.5, v_date = 5, v_source = u ''manual''\<rparr>]\<rparr>"
    by (simp add: get_translation_def)
  with run show ?thesis by (simp add: d0_def)
qed

text \<open>
  C9. When the normalised form of \<open>K\<close>, as \<^verbatim>\<open>update_term\<close> computes it, is not a key of
  the store, \<^verbatim>\<open>update_term\<close> returns \<^verbatim>\<open>False\<close> and the state it returns is the
  state it was given: no record is created, none is changed, and the clock is not read.
\<close>

theorem update_term_absent_fails:
  assumes "py_strip (lower K) \<notin> set (dict_keys (terms d))"
  shows "update_term lower d K V source confidence = (d, False)"
proof -
  from assms have "dict_get (terms d) (py_strip (lower K)) = None"
    using dict_get_keys [of "terms d" "py_strip (lower K)"] by blast
  then show ?thesis by (rule update_term_absent [where lower = lower])
qed

theorem update_term_absent_fails_witness:
  "py_strip (latin_lower (u '' Cough'')) \<notin>
     set (dict_keys (terms (fst (add_term latin_lower \<lparr>terms = [], clock = id, ticks = 0\<rparr>
        (Some (u ''Fever'')) (Some (u ''sot'')) (Some (u ''general'')) (u ''manual'') 1)))) \<and>
   update_term latin_lower
     (fst (add_term latin_lower \<lparr>terms = [], clock = id, ticks = 0\<rparr>
        (Some (u ''Fever'')) (Some (u ''sot'')) (Some (u ''general'')) (u ''manual'') 1))
     (u '' Cough'') (u ''ho'') (u ''manual'') 1 =
     (\<lparr>terms =
         [(u ''fever'',
           \<lparr>t_vietnamese = u ''sot'', t_category = Some (u ''general''), t_source = u ''manual'',
            t_confidence = 1, t_added_date = 0, t_last_updated = 1,
            t_versions =
              [\<lparr>v_vietnamese = u ''sot'', v_confidence = 1, v_date = 2,
                v_source = u ''manual''\<rparr>]\<rparr>)],
       clock = id, ticks = 3\<rparr>, False)"
proof -
  define d where "d = fst (add_term latin_lower \<lparr>terms = [], clock = id, ticks = 0\<rparr>
        (Some (u ''Fever'')) (Some (u ''sot'')) (Some (u ''general'')) (u ''manual'') 1)"
  have k: "py_strip (latin_lower (u ''Fever'')) = u ''fever''"
      "py_strip (latin_lower (u '' Cough'')) = u ''cough''" "py_strip (u ''sot'') = u ''sot''"
    by (simp_all add: u_def py_strip_def latin_lower_def latin_lower_cp_def py_isspace_def)
  have d: "d = \<lparr>terms =
         [(u ''fever'',
           \<lparr>t_vietnamese = u ''sot'', t_category = Some (u ''general''), t_source = u ''manual'',
            t_confidence = 1, t_added_date = 0, t_last_updated = 1,
            t_versions =
              [\<lparr>v_vietnamese = u ''sot'', v_confidence = 1, v_date = 2,
                v_source = u ''manual''\<rparr>]\<rparr>)],
       clock = id, ticks = 3\<rparr>"
    by (simp add: d_def add_term_Some k)
  have absent: "py_strip (latin_lower (u '' Cough'')) \<notin> set (dict_keys (terms d))"
    unfolding k by (simp add: d dict_keys_def u_def)
  then have "update_term latin_lower d (u '' Cough'') (u ''ho'') (u ''manual'') 1 = (d, False)"
    by (rule update_term_absent_fails [where lower = latin_lower])
  with absent have "py_strip (latin_lower (u '' Cough'')) \<notin> set (dict_keys (terms d)) \<and>
      update_term latin_lower d (u '' Cough'') (u ''ho'') (u ''manual'') 1 = (d, False)"
    by simp
  then show ?thesis unfolding d [symmetric] unfolding d_def .
qed

lemma update_term_appends:
  assumes "update_term lower d K V source confidence = (d', True)"
  shows "\<exists>r. get_translation lower d K = Some r \<and>
           get_translation lower d' K =
             Some (r\<lparr>t_versions := t_versions r @
                       [\<lparr>v_vietnamese = py_strip V, v_confidence = confidence,
                         v_date = clock d (ticks d), v_source = source\<rparr>],
                     t_vietnamese := py_strip V, t_confidence := confidence,
                     t_last_updated := clock d (ticks d + 1), t_source := source\<rparr>) \<and>
           dict_keys (terms d') = dict_keys (terms d) \<and>
           (\<forall>k. k \<noteq> py_strip (lower K) \<longrightarrow> dict_get (terms d') k = dict_get (terms d) k)"
proof (cases "dict_get (terms d) (py_strip (lower K))")
  case None
  from update_term_absent [where lower = lower, OF None] assms show ?thesis by simp
next
  case (Some r)
  have "py_strip (lower K) \<in> set (dict_keys (terms d))"
    using Some dict_get_keys [of "terms d" "py_strip (lower K)"] by simp
  with update_term_present [where lower = lower, OF Some, where vietnamese = V and source = source
      and confidence = confidence] assms Some show ?thesis
    by (auto simp: get_translation_def dict_get_dict_set dict_keys_dict_set)
qed

text \<open>
  C2 fails as stated when a translation has white space at either end: \<^verbatim>\<open>add_term\<close> and
  \<^verbatim>\<open>update_term\<close> store \<^verbatim>\<open>vietnamese.strip()\<close>, in the version entry as in the
  current field. After \<^verbatim>\<open>add_term("fever", "a")\<close>, \<^verbatim>\<open>update_term("fever", " b ")\<close> and
  \<^verbatim>\<open>update_term("fever", "c ")\<close> the version sequence holds \<^verbatim>\<open>a\<close>, \<^verbatim>\<open>b\<close>,
  \<^verbatim>\<open>c\<close> and the current translation is \<^verbatim>\<open>c\<close>: not the strings that were passed.
\<close>

theorem update_term_trims_counterexample:
  "map_option (\<lambda>r. (map v_vietnamese (t_versions r), t_vietnamese r))
     (get_translation latin_lower
        (fst (update_term latin_lower
           (fst (update_term latin_lower
              (fst (add_term latin_lower \<lparr>terms = [], clock = id, ticks = 0\<rparr>
                 (Some (u ''fever'')) (Some (u ''a'')) (Some (u ''general'')) (u ''manual'') 1))
              (u ''fever'') (u '' b '') (u ''manual'') 1))
           (u ''fever'') (u ''c '') (u ''manual'') 1))
        (u ''fever'')) =
     Some ([u ''a'', u ''b'', u ''c''], u ''c'') \<and>
   [u ''a'', u ''b'', u ''c''] \<noteq> [u ''a'', u '' b '', u ''c ''] \<and> u ''c'' \<noteq> u ''c ''"
proof -
  have k: "py_strip (latin_lower (u ''fever'')) = u ''fever''"
    by (simp add: u_def py_strip_def latin_lower_def latin_lower_cp_def py_isspace_def)
  have s: "py_strip (u ''a'') = u ''a''" "py_strip (u '' b '') = u ''b''"
      "py_strip (u ''c '') = u ''c''"
    by (simp_all add: py_strip_def u_def py_isspace_def)
  have n: "u ''b'' \<noteq> u '' b ''" "u ''c'' \<noteq> u ''c ''"
    by (simp_all add: u_def)
  show ?thesis
    by (simp add: add_term_Some update_term_def get_translation_def now_def Let_def dict_get_def
        k s n)
qed

text \<open>
  C2, amended. After \<^verbatim>\<open>add_term(K, V1)\<close>, \<^verbatim>\<open>update_term(K, V2)\<close> and
  \<^verbatim>\<open>update_term(K, V3)\<close> both succeed, and the record of \<open>K\<close> then has exactly three
  version entries, holding \<open>trim(V1)\<close>, \<open>trim(V2)\<close>, \<open>trim(V3)\<close> in that order; its current
  translation is \<open>trim(V3)\<close>, and its created-at timestamp is the one set by
  \<^verbatim>\<open>add_term\<close>. Each update leaves the entries that were there as they were and puts one
  entry after them; this holds for every successful update, of any record.
\<close>

theorem update_term_appends_versions:
  assumes "add_term lower d (Some K) (Some V1) category source1 confidence1 = (d1, True)"
    and "update_term lower d1 K V2 source2 confidence2 = (d2, ok2)"
    and "update_term lower d2 K V3 source3 confidence3 = (d3, ok3)"
  shows "ok2 \<and> ok3 \<and>
    (\<exists>r1 r2 r3 e2 e3.
       get_translation lower d1 K = Some r1 \<and> get_translation lower d2 K = Some r2 \<and>
       get_translation lower d3 K = Some r3 \<and>
       t_versions r2 = t_versions r1 @ [e2] \<and> t_versions r3 = t_versions r2 @ [e3] \<and>
       length (t_versions r3) = 3 \<and>
       map v_vietnamese (t_versions r3) = [py_strip V1, py_strip V2, py_strip V3] \<and>
       t_vietnamese r3 = py_strip V3 \<and>
       t_added_date r3 = t_added_date r1 \<and> t_added_date r1 = clock d (ticks d)) \<and>
    (\<forall>s K' V' source' confidence' s'.
       update_term lower s K' V' source' confidence' = (s', True) \<longrightarrow>
       (\<exists>r r' e. get_translation lower s K' = Some r \<and> get_translation lower s' K' = Some r' \<and>
          t_versions r' = t_versions r @ [e] \<and> t_added_date r' = t_added_date r))"
proof -
  let ?k = "py_strip (lower K)"
  let ?r1 = "\<lparr>t_vietnamese = py_strip V1, t_category = category, t_source = source1,
             t_confidence = confidence1, t_added_date = clock d (ticks d),
             t_last_updated = clock d (ticks d + 1),
             t_versions =
               [\<lparr>v_vietnamese = py_strip V1, v_confidence = confidence1,
                 v_date = clock d (ticks d + 2), v_source = source1\<rparr>]\<rparr>"
  from assms(1) have g1: "get_translation lower d1 K = Some ?r1"
    by (auto simp: add_term_Some get_translation_def dict_get_dict_set)
  then have "dict_get (terms d1) ?k = Some ?r1" by (simp add: get_translation_def)
  from update_term_present [where lower = lower, OF this, where vietnamese = V2 and source = source2
      and confidence = confidence2] assms(2)
  have ok2: "ok2" and d2: "update_term lower d1 K V2 source2 confidence2 = (d2, True)" by auto
  from update_term_appends [OF d2] g1 obtain r2 where
    g2: "get_translation lower d2 K = Some r2" and
    r2: "r2 = ?r1\<lparr>t_versions := t_versions ?r1 @
                       [\<lparr>v_vietnamese = py_strip V2, v_confidence = confidence2,
                         v_date = clock d1 (ticks d1), v_source = source2\<rparr>],
                     t_vietnamese := py_strip V2, t_confidence := confidence2,
                     t_last_updated := clock d1 (ticks d1 + 1), t_source := source2\<rparr>"
    by auto
  from g2 have "dict_get (terms d2) ?k = Some r2" by (simp add: get_translation_def)
  from update_term_present [where lower = lower, OF this, where vietnamese = V3 and source = source3
      and confidence = confidence3] assms(3)
  have ok3: "ok3" and d3: "update_term lower d2 K V3 source3 confidence3 = (d3, True)" by auto
  from update_term_appends [OF d3] g2 obtain r3 where
    g3: "get_translation lower d3 K = Some r3" and
    r3: "r3 = r2\<lparr>t_versions := t_versions r2 @
                       [\<lparr>v_vietnamese = py_strip V3, v_confidence = confidence3,
                         v_date = clock d2 (ticks d2), v_source = source3\<rparr>],
                     t_vietnamese := py_strip V3, t_confidence := confidence3,
                     t_last_updated := clock d2 (ticks d2 + 1), t_source := source3\<rparr>"
    by auto
  have main: "\<exists>r1 r2 r3 e2 e3.
       get_translation lower d1 K = Some r1 \<and> get_translation lower d2 K = Some r2 \<and>
       get_translation lower d3 K = Some r3 \<and>
       t_versions r2 = t_versions r1 @ [e2] \<and> t_versions r3 = t_versions r2 @ [e3] \<and>
       length (t_versions r3) = 3 \<and>
       map v_vietnamese (t_versions r3) = [py_strip V1, py_strip V2, py_strip V3] \<and>
       t_vietnamese r3 = py_strip V3 \<and>
       t_added_date r3 = t_added_date r1 \<and> t_added_date r1 = clock d (ticks d)"
    using g1 g2 g3 by (simp add: r2 r3)
  have every: "\<exists>r r' e. get_translation lower s K' = Some r \<and>
          get_translation lower s' K' = Some r' \<and>
          t_versions r' = t_versions r @ [e] \<and> t_added_date r' = t_added_date r"
    if "update_term lower s K' V' source' confidence' = (s', True)"
    for s K' V' source' confidence' s'
    using update_term_appends [OF that] by auto
  from ok2 ok3 main every show ?thesis by blast
qed

theorem update_term_appends_versions_witness:
  "map_option (\<lambda>r. (map v_vietnamese (t_versions r), t_vietnamese r, t_added_date r))
     (get_translation latin_lower
        (fst (update_term latin_lower
           (fst (update_term latin_lower
              (fst (add_term latin_lower \<lparr>terms = [], clock = id, ticks = 0\<rparr>
                 (Some (u ''Fever'')) (Some (u ''a'')) (Some (u ''general'')) (u ''manual'') 1))
              (u ''Fever'') (u '' b'') (u ''manual'') 1))
           (u ''Fever'') (u ''c'') (u ''manual'') 1))
        (u ''Fever'')) =
   Some ([u ''a'', u ''b'', u ''c''], u ''c'', 0)"
proof -
  let ?d = "\<lparr>terms = [], clock = id, ticks = 0\<rparr>"
  obtain d1 where a: "add_term latin_lower ?d (Some (u ''Fever'')) (Some (u ''a''))
      (Some (u ''general'')) (u ''manual'') 1 = (d1, True)"
    by (simp add: add_term_Some)
  obtain d2 ok2 where
    b: "update_term latin_lower d1 (u ''Fever'') (u '' b'') (u ''manual'') 1 = (d2, ok2)"
    by (cases "update_term latin_lower d1 (u ''Fever'') (u '' b'') (u ''manual'') 1") blast
  obtain d3 ok3 where
    c: "update_term latin_lower d2 (u ''Fever'') (u ''c'') (u ''manual'') 1 = (d3, ok3)"
    by (cases "update_term latin_lower d2 (u ''Fever'') (u ''c'') (u ''manual'') 1") blast
  have strip: "py_strip (u ''a'') = u ''a''" "py_strip (u '' b'') = u ''b''"
      "py_strip (u ''c'') = u ''c''"
    by (simp_all add: py_strip_def u_def py_isspace_def)
  from update_term_appends_versions [OF a b c, THEN conjunct2, THEN conjunct2, THEN conjunct1]
  obtain r1 r3 where
    "get_translation latin_lower d1 (u ''Fever'') = Some r1"
    "get_translation latin_lower d3 (u ''Fever'') = Some r3"
    "map v_vietnamese (t_versions r3) =
       [py_strip (u ''a''), py_strip (u '' b''), py_strip (u ''c'')]"
    "t_vietnamese r3 = py_strip (u ''c'')"
    "t_added_date r3 = t_added_date r1" "t_added_date r1 = clock ?d (ticks ?d)"
    by (elim exE conjE) (rule that)
  then have "map_option (\<lambda>r. (map v_vietnamese (t_versions r), t_vietnamese r, t_added_date r))
     (get_translation latin_lower d3 (u ''Fever'')) = Some ([u ''a'', u ''b'', u ''c''], u ''c'', 0)"
    by (simp add: strip)
  with a b c show ?thesis by simp
qed

definition current_matches_last :: "term_data \<Rightarrow> bool" where
  "current_matches_last r \<longleftrightarrow>
     t_versions r \<noteq> [] \<and>
     t_vietnamese r = v_vietnamese (last (t_versions r)) \<and>
     t_confidence r = v_confidence (last (t_versions r)) \<and>
     t_source r = v_source (last (t_versions r))"

definition consecutive_readings :: "(nat \<Rightarrow> timestamp) \<Rightarrow> nat \<Rightarrow> timestamp \<Rightarrow> timestamp \<Rightarrow> bool" where
  "consecutive_readings clk n a b \<longleftrightarrow>
     (\<exists>i<n. i + 1 < n \<and> (a = clk i \<and> b = clk (i + 1) \<or> b = clk i \<and> a = clk (i + 1)))"

definition record_inv :: "dictionary \<Rightarrow> term_data \<Rightarrow> bool" where
  "record_inv d r \<longleftrightarrow>
     current_matches_last r \<and>
     consecutive_readings (clock d) (ticks d) (t_last_updated r) (v_date (last (t_versions r)))"

lemma consecutive_readings_mono:
  "consecutive_readings clk n a b \<Longrightarrow> n \<le> m \<Longrightarrow> consecutive_readings clk m a b"
proof -
  assume "consecutive_readings clk n a b" and le: "n \<le> m"
  then obtain i where i: "i < n" "i + 1 < n"
      "a = clk i \<and> b = clk (i + 1) \<or> b = clk i \<and> a = clk (i + 1)"
    unfolding consecutive_readings_def by blast
  from i(1,2) le have "i < m" "i + 1 < m" by simp_all
  with i(3) show ?thesis unfolding consecutive_readings_def by blast
qed

lemma add_term_clock:
  "clock (fst (add_term lower d english vietnamese category source confidence)) = clock d"
  "ticks d \<le> ticks (fst (add_term lower d english vietnamese category source confidence))"
  by (cases english; cases vietnamese; simp add: add_term_Some add_term_None)+

lemma update_term_clock:
  "clock (fst (update_term lower d english vietnamese source confidence)) = clock d"
  "ticks d \<le> ticks (fst (update_term lower d english vietnamese source confidence))"
  by (cases "dict_get (terms d) (py_strip (lower english))";
      simp add: update_term_absent update_term_present)+

lemma add_term_inv:
  assumes "\<forall>(k, r) \<in> set (terms d). record_inv d r"
  shows "\<forall>(k, r) \<in> set (terms (fst (add_term lower d english vietnamese category source confidence))).
           record_inv (fst (add_term lower d english vietnamese category source confidence)) r"
proof (cases "english = None \<or> vietnamese = None")
  case True
  with assms show ?thesis by (simp add: add_term_None)
next
  case False
  then obtain e v where ev: "english = Some e" "vietnamese = Some v" by auto
  let ?d' = "fst (add_term lower d english vietnamese category source confidence)"
  let ?r = "\<lparr>t_vietnamese = py_strip v, t_category = category, t_source = source,
             t_confidence = confidence, t_added_date = clock d (ticks d),
             t_last_updated = clock d (ticks d + 1),
             t_versions =
               [\<lparr>v_vietnamese = py_strip v, v_confidence = confidence,
                 v_date = clock d (ticks d + 2), v_source = source\<rparr>]\<rparr>"
  have d': "terms ?d' = dict_set (terms d) (py_strip (lower e)) ?r"
    "clock ?d' = clock d" "ticks ?d' = ticks d + 3"
    by (simp_all add: ev add_term_Some)
  have new: "record_inv ?d' ?r"
    unfolding record_inv_def current_matches_last_def consecutive_readings_def d'
    by (auto intro!: exI [of _ "ticks d + 1"])
  have old: "record_inv ?d' r" if "(k, r) \<in> set (terms d)" for k r
  proof -
    from assms that have "record_inv d r" by auto
    then show ?thesis
      unfolding record_inv_def d' by (auto elim: consecutive_readings_mono)
  qed
  show ?thesis
  proof (clarify)
    fix k r assume "(k, r) \<in> set (terms ?d')"
    with d'(1) set_dict_set [of "terms d" "py_strip (lower e)" ?r]
    have "(k, r) = (py_strip (lower e), ?r) \<or> (k, r) \<in> set (terms d)" by auto
    with new old show "record_inv ?d' r" by auto
  qed
qed

lemma update_term_inv:
  assumes "\<forall>(k, r) \<in> set (terms d). record_inv d r"
  shows "\<forall>(k, r) \<in> set (terms (fst (update_term lower d english vietnamese source confidence))).
           record_inv (fst (update_term lower d english vietnamese source confidence)) r"
proof (cases "dict_get (terms d) (py_strip (lower english))")
  case None
  with assms show ?thesis by (simp add: update_term_absent)
next
  case (Some entry)
  let ?d' = "fst (update_term lower d english vietnamese source confidence)"
  let ?r = "entry\<lparr>t_versions := t_versions entry @
                       [\<lparr>v_vietnamese = py_strip vietnamese, v_confidence = confidence,
                         v_date = clock d (ticks d), v_source = source\<rparr>],
                     t_vietnamese := py_strip vietnamese, t_confidence := confidence,
                     t_last_updated := clock d (ticks d + 1), t_source := source\<rparr>"
  have d': "terms ?d' = dict_set (terms d) (py_strip (lower english)) ?r"
    "clock ?d' = clock d" "ticks ?d' = ticks d + 2"
    by (simp_all add: update_term_present [where lower = lower, OF Some])
  have new: "record_inv ?d' ?r"
    unfolding record_inv_def current_matches_last_def consecutive_readings_def d'
    by (auto intro!: exI [of _ "ticks d"])
  have old: "record_inv ?d' r" if "(k, r) \<in> set (terms d)" for k r
  proof -
    from assms that have "record_inv d r" by auto
    then show ?thesis
      unfolding record_inv_def d' by (auto elim: consecutive_readings_mono)
  qed
  show ?thesis
  proof (clarify)
    fix k r assume "(k, r) \<in> set (terms ?d')"
    with d'(1) set_dict_set [of "terms d" "py_strip (lower english)" ?r]
    have "(k, r) = (py_strip (lower english), ?r) \<or> (k, r) \<in> set (terms d)" by auto
    with new old show "record_inv ?d' r" by auto
  qed
qed

lemma import_rows_inv:
  "\<forall>(k, r) \<in> set (terms d). record_inv d r \<Longrightarrow>
   \<forall>(k, r) \<in> set (terms (fst (import_rows lower pyfloat d rows source))).
      record_inv (fst (import_rows lower pyfloat d rows source)) r"
proof (induction rows arbitrary: d)
  case Nil
  then show ?case by simp
next
  case (Cons row rows)
  show ?case
  proof (cases "row_getitem row (u ''English'')")
    case (Inl e)
    with Cons.prems show ?thesis by simp
  next
    case english: (Inr english)
    show ?thesis
    proof (cases "row_getitem row (u ''Vietnamese'')")
      case (Inl e)
      with english Cons.prems show ?thesis by simp
    next
      case vietnamese: (Inr vietnamese)
      show ?thesis
      proof (cases "row_confidence pyfloat row")
        case (Inl e)
        with english vietnamese Cons.prems show ?thesis by simp
      next
        case (Inr confidence)
        from Cons.IH [OF add_term_inv [OF Cons.prems]] english vietnamese Inr
        show ?thesis by simp
      qed
    qed
  qed
qed

lemma import_csv_inv:
  "\<forall>(k, r) \<in> set (terms d). record_inv d r \<Longrightarrow>
   \<forall>(k, r) \<in> set (terms (fst (import_csv lower pyfloat d file source))).
      record_inv (fst (import_csv lower pyfloat d file source)) r"
  by (cases "file") (simp_all add: import_csv_def import_rows_inv)

lemma reachable_record_inv: "reachable lower d \<Longrightarrow> \<forall>(k, r) \<in> set (terms d). record_inv d r"
proof (induction rule: reachable.induct)
  case (reachable_init c n)
  show ?case by simp
next
  case (reachable_add d english vietnamese category source confidence)
  then show ?case by (intro add_term_inv)
next
  case (reachable_update d english vietnamese source confidence)
  then show ?case by (intro update_term_inv)
next
  case (reachable_import d pyfloat csv source)
  then show ?case by (intro import_csv_inv)
qed

text \<open>
  C3, as the claim states it, fails on its last part. \<^verbatim>\<open>add_term\<close> reads the clock once
  for \<^verbatim>\<open>last_updated\<close> and once more for the \<^verbatim>\<open>date\<close> of the version entry. With a
  clock that advances at every reading, the record stored by a single \<^verbatim>\<open>add_term\<close> on
  the empty store has \<^verbatim>\<open>last_updated\<close> 1 and an only version entry dated 2.
\<close>

theorem last_updated_counterexample:
  "reachable latin_lower (fst (add_term latin_lower \<lparr>terms = [], clock = id, ticks = 0\<rparr>
      (Some (u ''fever'')) (Some (u ''sot'')) (Some (u ''general'')) (u ''manual'') 1)) \<and>
   terms (fst (add_term latin_lower \<lparr>terms = [], clock = id, ticks = 0\<rparr>
      (Some (u ''fever'')) (Some (u ''sot'')) (Some (u ''general'')) (u ''manual'') 1)) =
     [(u ''fever'',
       \<lparr>t_vietnamese = u ''sot'', t_category = Some (u ''general''), t_source = u ''manual'',
        t_confidence = 1, t_added_date = 0, t_last_updated = 1,
        t_versions =
          [\<lparr>v_vietnamese = u ''sot'', v_confidence = 1, v_date = 2, v_source = u ''manual''\<rparr>]\<rparr>)] \<and>
   t_last_updated
       \<lparr>t_vietnamese = u ''sot'', t_category = Some (u ''general''), t_source = u ''manual'',
        t_confidence = 1, t_added_date = 0, t_last_updated = 1,
        t_versions =
          [\<lparr>v_vietnamese = u ''sot'', v_confidence = 1, v_date = 2, v_source = u ''manual''\<rparr>]\<rparr> \<noteq>
   v_date (last (t_versions
       \<lparr>t_vietnamese = u ''sot'', t_category = Some (u ''general''), t_source = u ''manual'',
        t_confidence = 1, t_added_date = 0, t_last_updated = 1,
        t_versions =
          [\<lparr>v_vietnamese = u ''sot'', v_confidence = 1, v_date = 2, v_source = u ''manual''\<rparr>]\<rparr>))"
proof -
  have "reachable latin_lower \<lparr>terms = [], clock = id, ticks = 0\<rparr>" by (rule reachable_init)
  then have "reachable latin_lower (fst (add_term latin_lower \<lparr>terms = [], clock = id, ticks = 0\<rparr>
      (Some (u ''fever'')) (Some (u ''sot'')) (Some (u ''general'')) (u ''manual'') 1))"
    by (rule reachable_add)
  moreover have "py_strip (latin_lower (u ''fever'')) = u ''fever''" "py_strip (u ''sot'') = u ''sot''"
    by (simp_all add: u_def py_strip_def latin_lower_def latin_lower_cp_def py_isspace_def)
  ultimately show ?thesis by (simp add: add_term_Some)
qed

text \<open>
  C3, amended. In every state reached from the empty store by \<^verbatim>\<open>add_term\<close>,
  \<^verbatim>\<open>update_term\<close> and \<^verbatim>\<open>import_csv\<close>, every stored record has at least one version
  entry, and its current translation, confidence and source are those of the last entry. Its
  last-updated timestamp and the timestamp of the last entry are two consecutive readings of
  the clock, in either order; they are equal when the clock returned the same value twice.
\<close>

theorem reachable_records_in_sync:
  assumes "reachable lower d" and "(k, r) \<in> set (terms d)"
  shows "t_versions r \<noteq> [] \<and>
         t_vietnamese r = v_vietnamese (last (t_versions r)) \<and>
         t_confidence r = v_confidence (last (t_versions r)) \<and>
         t_source r = v_source (last (t_versions r)) \<and>
         consecutive_readings (clock d) (ticks d) (t_last_updated r) (v_date (last (t_versions r)))"
  using reachable_record_inv [OF assms(1)] assms(2)
  by (auto simp: record_inv_def current_matches_last_def)

theorem reachable_records_in_sync_witness:
  "consecutive_readings id 5 4 3"
proof -
  let ?d0 = "\<lparr>terms = [], clock = id, ticks = 0\<rparr>"
  let ?d1 = "fst (add_term latin_lower ?d0 (Some (u ''fever'')) (Some (u ''sot'')) (Some (u ''general''))
      (u ''manual'') 1)"
  let ?d2 = "fst (update_term latin_lower ?d1 (u ''fever'') (u ''om'') (u ''manual'') 1)"
  have k: "py_strip (latin_lower (u ''fever'')) = u ''fever''"
    by (simp add: u_def py_strip_def latin_lower_def latin_lower_cp_def py_isspace_def)
  let ?r = "\<lparr>t_vietnamese = py_strip (u ''om''), t_category = Some (u ''general''), t_source = u ''manual'',
        t_confidence = 1, t_added_date = 0, t_last_updated = 4,
        t_versions =
          [\<lparr>v_vietnamese = py_strip (u ''sot''), v_confidence = 1, v_date = 2, v_source = u ''manual''\<rparr>,
           \<lparr>v_vietnamese = py_strip (u ''om''), v_confidence = 1, v_date = 3, v_source = u ''manual''\<rparr>]\<rparr>"
  have d2: "terms ?d2 = [(u ''fever'', ?r)]" "clock ?d2 = id" "ticks ?d2 = 5"
    by (simp_all add: add_term_Some update_term_def now_def Let_def dict_get_def k)
  have "reachable latin_lower ?d2"
    by (intro reachable_update reachable_add reachable_init)
  moreover have "(u ''fever'', ?r) \<in> set (terms ?d2)" by (simp add: d2)
  ultimately have "consecutive_readings (clock ?d2) (ticks ?d2) (t_last_updated ?r)
      (v_date (last (t_versions ?r)))"
    using reachable_records_in_sync [where lower = latin_lower and d = ?d2 and k = "u ''fever''" and r = ?r]
    by blast
  then show ?thesis by (simp add: d2)
qed

section \<open>Similar terms\<close>

lemma matches_loop:
  "foldl (\<lambda>matches existing_term.
            if 0.6 < ratio True q existing_term
            then matches @ [(existing_term, ratio True q existing_term)] else matches) acc keys =
   acc @ filter (\<lambda>(k, r). 0.6 < r) (map (\<lambda>k. (k, ratio True q k)) keys)"
  by (induction keys arbitrary: acc) simp_all

lemma py_sorted_reverse_mset: "mset (py_sorted_reverse key xs) = mset xs"
  by (simp add: py_sorted_reverse_def)

lemma py_sorted_reverse_stable:
  "filter (\<lambda>x. key x = v) (py_sorted_reverse key xs) = filter (\<lambda>x. key x = v) xs"
  by (simp add: py_sorted_reverse_def sort_key_stable flip: rev_filter)

lemma py_sorted_reverse_descending: "sorted (rev (map key (py_sorted_reverse key xs)))"
  by (simp add: py_sorted_reverse_def rev_map)

lemma py_sorted_reverse_real:
  fixes key :: "'a \<Rightarrow> real"
  shows "py_sorted_reverse key xs = sort_key (\<lambda>x. - key x) xs"
proof (rule properties_for_sort_key [symmetric])
  show "mset (py_sorted_reverse key xs) = mset xs" by (rule py_sorted_reverse_mset)
next
  fix k
  have "(\<lambda>x. - key k = - key x) = (\<lambda>x. key x = key k)" by auto
  then show "filter (\<lambda>x. - key k = - key x) (py_sorted_reverse key xs) =
             filter (\<lambda>x. - key k = - key x) xs"
    by (simp add: py_sorted_reverse_stable)
next
  have neg: "sorted (map uminus zs)" if "sorted (rev zs)" for zs :: "real list"
    using that by (induction zs) (auto simp: sorted_append)
  have "sorted (map uminus (map key (py_sorted_reverse key xs)))"
    by (rule neg) (rule py_sorted_reverse_descending)
  then show "sorted (map (\<lambda>x. - key x) (py_sorted_reverse key xs))"
    by (simp add: comp_def)
qed

definition candidates :: "(ustr \<Rightarrow> ustr) \<Rightarrow> dictionary \<Rightarrow> ustr \<Rightarrow> (ustr \<times> real) list" where
  "candidates lower d trm =
     filter (\<lambda>(k, r). 0.6 < r)
       (map (\<lambda>k. (k, ratio True (py_strip (lower trm)) k)) (dict_keys (terms d)))"

lemma get_similar_terms_eq:
  "get_similar_terms lower d trm n = py_slice_to n (py_sorted_reverse snd (candidates lower d trm))"
  unfolding get_similar_terms_def candidates_def Let_def matches_loop append_Nil ..

lemma set_py_slice_to: "set (py_slice_to n xs) \<subseteq> set xs"
  by (auto simp: py_slice_to_def dest: in_set_takeD)

lemma set_get_similar_terms: "set (get_similar_terms lower d trm n) \<subseteq> set (candidates lower d trm)"
proof -
  have "set (py_sorted_reverse snd (candidates lower d trm)) = set (candidates lower d trm)"
    by (simp add: py_sorted_reverse_def)
  with set_py_slice_to [of n "py_sorted_reverse snd (candidates lower d trm)"] show ?thesis
    by (simp add: get_similar_terms_eq)
qed

lemma get_similar_terms_keys:
  "(k, r) \<in> set (get_similar_terms lower d trm n) \<Longrightarrow> k \<in> set (dict_keys (terms d))"
  using set_get_similar_terms [of lower d trm n] by (auto simp: candidates_def)

text \<open>
  The ratio that the specification describes, "2 M / T with M the total length of the blocks
  found by taking the longest common substring and recursing on the fragments to its left and
  to its right", is the matcher's ratio with the \<^verbatim>\<open>autojunk\<close> heuristic off. A common
  block of two strings is a slice of one that is also a slice of the other.
\<close>

definition ratcliff_obershelp :: "'a list \<Rightarrow> 'a list \<Rightarrow> real" where
  "ratcliff_obershelp a b = ratio False a b"

definition common_block :: "'a list \<Rightarrow> 'a list \<Rightarrow> nat \<Rightarrow> nat \<Rightarrow> nat \<Rightarrow> bool" where
  "common_block a b i j n \<longleftrightarrow>
     i + n \<le> length a \<and> j + n \<le> length b \<and> take n (drop i a) = take n (drop j b)"

lemma b2j_short: "length b < 200 \<Longrightarrow> b2j True b = b2j False b"
  by (rule ext) (simp add: b2j_def popular_def)

lemma ratio_short: "length b < 200 \<Longrightarrow> ratio True a b = ratcliff_obershelp a b"
  by (simp add: ratio_def ratcliff_obershelp_def b2j_short)

text \<open>
  Without the heuristic the first match that \<^verbatim>\<open>find_longest_match\<close> returns is at least
  as long as any common block. \<open>run a b i j\<close> is the length of the longest common block that
  ends at position \<open>i\<close> of \<^verbatim>\<open>a\<close> and position \<open>j\<close> of \<^verbatim>\<open>b\<close>; after round
  \<open>i\<close> of the outer loop \<^verbatim>\<open>j2len\<close> holds these lengths for row \<open>i\<close>, and the best
  size is at least every length met so far.
\<close>

fun run :: "'a list \<Rightarrow> 'a list \<Rightarrow> nat \<Rightarrow> nat \<Rightarrow> nat" where
  "run a b 0 j = (if a ! 0 = b ! j then 1 else 0)"
| "run a b (Suc i) j =
     (if a ! Suc i = b ! j then (if j = 0 then 1 else Suc (run a b i (j - 1))) else 0)"

lemma inner_step_eq:
  "inner_step j2len i (new, (bi, bj, bs)) j =
     (new(j := (if j = 0 then 0 else j2len (j - 1)) + 1),
      (if bs < (if j = 0 then 0 else j2len (j - 1)) + 1
       then (i + 1 - ((if j = 0 then 0 else j2len (j - 1)) + 1),
             j + 1 - ((if j = 0 then 0 else j2len (j - 1)) + 1),
             (if j = 0 then 0 else j2len (j - 1)) + 1)
       else (bi, bj, bs)))"
  by (simp add: inner_step_def Let_def)

lemma inner_fold_run:
  "distinct js \<Longrightarrow>
   foldl (inner_step j2len i) (new, (bi, bj, bs)) js = (new', (bi', bj', bs')) \<Longrightarrow>
   (\<forall>j. new' j = (if j \<in> set js then (if j = 0 then 0 else j2len (j - 1)) + 1 else new j)) \<and>
   bs \<le> bs' \<and> (\<forall>j \<in> set js. (if j = 0 then 0 else j2len (j - 1)) + 1 \<le> bs')"
proof (induction js arbitrary: new bi bj bs)
  case Nil
  then show ?case by simp
next
  case (Cons j js)
  define k where "k = (if j = 0 then 0 else j2len (j - 1)) + 1"
  obtain b1 c1 s1 where st: "inner_step j2len i (new, (bi, bj, bs)) j = (new(j := k), (b1, c1, s1))"
    and s1: "bs \<le> s1" "k \<le> s1"
    unfolding inner_step_eq k_def [symmetric] by (cases "bs < k") auto
  from Cons.prems(2) st
  have "foldl (inner_step j2len i) (new(j := k), (b1, c1, s1)) js = (new', (bi', bj', bs'))"
    by simp
  from Cons.IH [OF _ this] Cons.prems(1)
  have ih: "\<forall>j'. new' j' =
        (if j' \<in> set js then (if j' = 0 then 0 else j2len (j' - 1)) + 1 else (new(j := k)) j')"
      "s1 \<le> bs'" "\<forall>j' \<in> set js. (if j' = 0 then 0 else j2len (j' - 1)) + 1 \<le> bs'"
    by simp_all
  from Cons.prems(1) have nj: "j \<notin> set js" by simp
  have 1: "\<forall>j'. new' j' =
      (if j' \<in> set (j # js) then (if j' = 0 then 0 else j2len (j' - 1)) + 1 else new j')"
    using ih(1) nj by (auto simp: k_def)
  have 2: "bs \<le> bs'" using s1(1) ih(2) by simp
  have 3: "\<forall>j' \<in> set (j # js). (if j' = 0 then 0 else j2len (j' - 1)) + 1 \<le> bs'"
    using ih(3) s1(2) ih(2) by (auto simp: k_def)
  from 1 2 3 show ?case by blast
qed

lemma rows_run:
  "foldl (row_step a (b2j False b) 0 (length b)) ((\<lambda>_. 0), (0, 0, 0)) [0..<n] = (j2len, (bi, bj, bs)) \<Longrightarrow>
   (\<forall>j. j2len j = (if n = 0 \<or> length b \<le> j then 0 else run a b (n - 1) j)) \<and>
   (\<forall>i<n. \<forall>j<length b. run a b i j \<le> bs)"
proof (induction n arbitrary: j2len bi bj bs)
  case 0
  then show ?case by auto
next
  case (Suc n)
  obtain j0 b0 c0 s0 where
    st: "foldl (row_step a (b2j False b) 0 (length b)) ((\<lambda>_. 0), (0, 0, 0)) [0..<n] = (j0, (b0, c0, s0))"
    by (metis prod_cases4)
  from Suc.IH [OF st]
  have j0: "\<forall>j. j0 j = (if n = 0 \<or> length b \<le> j then 0 else run a b (n - 1) j)"
    and s0: "\<forall>i<n. \<forall>j<length b. run a b i j \<le> s0"
    by simp_all
  define js where "js = filter (\<lambda>j. 0 \<le> j \<and> j < length b) (b2j False b (a ! n))"
  have js: "distinct js" "set js = {j. j < length b \<and> b ! j = a ! n}"
    by (auto simp: js_def b2j_def)
  from Suc.prems st
  have "row_step a (b2j False b) 0 (length b) (j0, (b0, c0, s0)) n = (j2len, (bi, bj, bs))"
    by simp
  then have "foldl (inner_step j0 n) ((\<lambda>_. 0), (b0, c0, s0)) js = (j2len, (bi, bj, bs))"
    by (simp add: row_step_def js_def)
  from inner_fold_run [OF js(1) this]
  have new: "\<forall>j. j2len j = (if j \<in> set js then (if j = 0 then 0 else j0 (j - 1)) + 1 else 0)"
    and le: "s0 \<le> bs" and ks: "\<forall>j \<in> set js. (if j = 0 then 0 else j0 (j - 1)) + 1 \<le> bs"
    by simp_all
  have row: "j2len j = (if length b \<le> j then 0 else run a b n j)" for j
  proof (cases "j \<in> set js")
    case False
    with new js(2) show ?thesis by (cases n) auto
  next
    case True
    with js(2) have j: "j < length b" "b ! j = a ! n" by simp_all
    from new True have "j2len j = (if j = 0 then 0 else j0 (j - 1)) + 1" by simp
    also have "\<dots> = run a b n j"
      using j j0 by (cases n) auto
    finally show ?thesis using j(1) by simp
  qed
  have best: "run a b i j \<le> bs" if "i < Suc n" "j < length b" for i j
  proof (cases "i < n")
    case True
    with s0 that(2) le show ?thesis by force
  next
    case False
    with that(1) have i: "i = n" by simp
    show ?thesis
    proof (cases "j \<in> set js")
      case True
      with ks new have "j2len j \<le> bs" by simp
      with row [of j] that(2) i show ?thesis by simp
    next
      case False
      with new have "j2len j = 0" by simp
      with row [of j] that(2) i show ?thesis by simp
    qed
  qed
  from row best show ?case by simp
qed

lemma run_block:
  "0 < m \<Longrightarrow> \<forall>t<m. a ! (i0 + t) = b ! (j0 + t) \<Longrightarrow> m \<le> run a b (i0 + m - 1) (j0 + m - 1)"
proof (induction m)
  case 0
  then show ?case by simp
next
  case (Suc m)
  show ?case
  proof (cases "m = 0")
    case True
    with Suc.prems(2) have "a ! i0 = b ! j0" by simp
    with True show ?thesis by (cases i0) simp_all
  next
    case False
    with Suc.IH Suc.prems(2) have ih: "m \<le> run a b (i0 + m - 1) (j0 + m - 1)" by simp
    from Suc.prems(2) have eq: "a ! (i0 + m) = b ! (j0 + m)" by simp
    from False obtain m' where m': "m = Suc m'" by (cases m) auto
    have "run a b (i0 + m) (j0 + m) = Suc (run a b (i0 + m - 1) (j0 + m - 1))"
      using eq by (simp add: m')
    with ih show ?thesis by simp
  qed
qed

lemma extend_left_size:
  "extend_left a b alo blo m = (bi', bj', bs') \<Longrightarrow> snd (snd m) \<le> bs'"
proof (induction a b alo blo m rule: extend_left.induct)
  case (1 a b alo blo besti bestj bestsize)
  show ?case
  proof (cases "alo < besti \<and> blo < bestj \<and> a ! (besti - 1) = b ! (bestj - 1)")
    case True
    have "extend_left a b alo blo (besti, bestj, bestsize) =
          extend_left a b alo blo (besti - 1, bestj - 1, bestsize + 1)"
      by (subst extend_left.simps, rule if_P, rule True)
    with "1.prems"
    have rec: "extend_left a b alo blo (besti - 1, bestj - 1, bestsize + 1) = (bi', bj', bs')"
      by simp
    from "1.IH" [OF True rec] show ?thesis by simp
  next
    case False
    have "extend_left a b alo blo (besti, bestj, bestsize) = (besti, bestj, bestsize)"
      by (subst extend_left.simps, rule if_not_P, rule False)
    with "1.prems" show ?thesis by simp
  qed
qed

lemma extend_right_size:
  "extend_right a b ahi bhi m = (bi', bj', bs') \<Longrightarrow> snd (snd m) \<le> bs'"
proof (induction a b ahi bhi m rule: extend_right.induct)
  case (1 a b ahi bhi besti bestj bestsize)
  let ?c = "besti + bestsize < ahi \<and> bestj + bestsize < bhi \<and>
         a ! (besti + bestsize) = b ! (bestj + bestsize)"
  show ?case
  proof (cases ?c)
    case True
    have "extend_right a b ahi bhi (besti, bestj, bestsize) =
          extend_right a b ahi bhi (besti, bestj, bestsize + 1)"
      by (subst extend_right.simps, rule if_P, rule True)
    with "1.prems"
    have rec: "extend_right a b ahi bhi (besti, bestj, bestsize + 1) = (bi', bj', bs')"
      by simp
    from "1.IH" [OF True rec] show ?thesis by simp
  next
    case False
    have "extend_right a b ahi bhi (besti, bestj, bestsize) = (besti, bestj, bestsize)"
      by (subst extend_right.simps, rule if_not_P, rule False)
    with "1.prems" show ?thesis by simp
  qed
qed

lemma find_longest_match_longest:
  assumes "common_block a b i0 j0 m"
    and "find_longest_match a b (b2j False b) 0 (length a) 0 (length b) = (i, j, k)"
  shows "m \<le> k"
proof (cases "m = 0")
  case True
  then show ?thesis by simp
next
  case False
  from assms(1) have cb: "i0 + m \<le> length a" "j0 + m \<le> length b"
      "take m (drop i0 a) = take m (drop j0 b)"
    by (simp_all add: common_block_def)
  have eq: "\<forall>t<m. a ! (i0 + t) = b ! (j0 + t)"
  proof (intro allI impI)
    fix t assume t: "t < m"
    with cb(1,2) have "take m (drop i0 a) ! t = a ! (i0 + t)" "take m (drop j0 b) ! t = b ! (j0 + t)"
      by simp_all
    with cb(3) show "a ! (i0 + t) = b ! (j0 + t)" by simp
  qed
  from False have "0 < m" by simp
  from run_block [OF this eq] have r: "m \<le> run a b (i0 + m - 1) (j0 + m - 1)" .
  obtain j2 b0 c0 s0 where
    st: "foldl (row_step a (b2j False b) 0 (length b)) ((\<lambda>_. 0), (0, 0, 0)) [0..<length a] =
      (j2, (b0, c0, s0))"
    by (metis prod_cases4)
  from rows_run [OF st] have "\<forall>i<length a. \<forall>j<length b. run a b i j \<le> s0" by simp
  moreover from False cb(1,2) have "i0 + m - 1 < length a" "j0 + m - 1 < length b" by simp_all
  ultimately have "run a b (i0 + m - 1) (j0 + m - 1) \<le> s0" by blast
  with r have m: "m \<le> s0" by simp
  obtain b1 c1 s1 where l: "extend_left a b 0 0 (b0, c0, s0) = (b1, c1, s1)"
    by (metis prod_cases3)
  from extend_left_size [OF l] have s1: "s0 \<le> s1" by simp
  from assms(2) st l have "extend_right a b (length a) (length b) (b1, c1, s1) = (i, j, k)"
    by (simp add: find_longest_match_def)
  from extend_right_size [OF this] have "s1 \<le> k" by simp
  with m s1 show ?thesis by simp
qed

lemma ratcliff_obershelp_lower_bound:
  assumes "common_block a b i0 j0 m"
  shows "2 * real m / real (length a + length b) \<le> ratcliff_obershelp a b"
proof (cases "m = 0")
  case True
  then show ?thesis by (simp add: ratcliff_obershelp_def ratio_def calculate_ratio_def)
next
  case False
  obtain i j k where f: "find_longest_match a b (b2j False b) 0 (length a) 0 (length b) = (i, j, k)"
    by (metis prod_cases3)
  from find_longest_match_longest [OF assms f] have mk: "m \<le> k" .
  with False have k: "k \<noteq> 0" by simp
  have "\<exists>rest. matching_blocks a b (b2j False b) 0 (length a) 0 (length b) = (i, j, k) # rest"
    by (subst matching_blocks.simps) (simp add: f k)
  then obtain rest where
    "matching_blocks a b (b2j False b) 0 (length a) 0 (length b) = (i, j, k) # rest" ..
  then have "k \<le> sum_list (map (\<lambda>(i, j, k). k)
      (matching_blocks a b (b2j False b) 0 (length a) 0 (length b)))"
    by simp
  with mk have s: "m \<le> sum_list (map (\<lambda>(i, j, k). k)
      (matching_blocks a b (b2j False b) 0 (length a) 0 (length b)))"
    by simp
  from assms False have "length a + length b \<noteq> 0" by (auto simp: common_block_def)
  with s show ?thesis
    by (simp add: ratcliff_obershelp_def ratio_def calculate_ratio_def divide_right_mono)
qed

text \<open>
  When every element of \<^verbatim>\<open>b\<close> is popular the index is empty, no round of
  \<^verbatim>\<open>find_longest_match\<close> finds anything, and the match of size 0 that is left can only
  grow at its right end, from the first elements of the two sequences.
\<close>

lemma b2j_all_popular:
  assumes "\<forall>x \<in> set b. popular b x"
  shows "b2j True b x = []"
proof (cases "x \<in> set b")
  case True
  with assms show ?thesis by (simp add: b2j_def)
next
  case False
  then have "filter (\<lambda>j. b ! j = x) [0..<length b] = []"
    by (auto simp: filter_empty_conv)
  then show ?thesis by (simp add: b2j_def)
qed

lemma rows_empty_index:
  "\<forall>x. idx x = [] \<Longrightarrow> snd (foldl (row_step a idx blo bhi) (j2len, best) rows) = best"
  by (induction rows arbitrary: j2len) (simp_all add: row_step_def)

lemma ratio_all_popular:
  assumes "\<forall>x \<in> set b. popular b x" and "b \<noteq> []" and "a ! 0 \<noteq> b ! 0"
  shows "ratio True a b = 0"
proof -
  let ?idx = "b2j True b"
  from assms(1) have idx: "\<forall>x. ?idx x = []" by (simp add: b2j_all_popular)
  have rows: "snd (foldl (row_step a ?idx 0 (length b)) ((\<lambda>_. 0), (0, 0, 0)) [0..<length a]) =
      (0, 0, 0)"
    using idx by (rule rows_empty_index)
  have left: "extend_left a b 0 0 (0, 0, 0) = (0, 0, 0)"
    by (subst extend_left.simps) simp
  have right: "extend_right a b (length a) (length b) (0, 0, 0) = (0, 0, 0)"
    by (subst extend_right.simps) (simp add: assms(3))
  have "find_longest_match a b ?idx 0 (length a) 0 (length b) = (0, 0, 0)"
    by (simp add: find_longest_match_def rows left right)
  then have "matching_blocks a b ?idx 0 (length a) 0 (length b) = []"
    by (subst matching_blocks.simps) simp
  with assms(2) show ?thesis by (simp add: ratio_def calculate_ratio_def)
qed

lemma count_list_replicate: "count_list (replicate n x) x = n"
  by (induction n) simp_all

lemma py_strip_same:
  assumes "s \<noteq> []" "\<not> py_isspace (hd s)" "\<not> py_isspace (last s)"
  shows "py_strip s = s"
proof -
  from assms(1,2) have "dropWhile py_isspace s = s" by (cases s) simp_all
  moreover from assms(1,3) have "dropWhile py_isspace (rev s) = rev s"
    by (cases "rev s") (simp_all add: last_rev [symmetric] del: last_rev)
  ultimately show ?thesis by (simp add: py_strip_def)
qed

lemma latin_lower_replicate:
  "latin_lower_cp c = [c] \<Longrightarrow> latin_lower (replicate n c) = replicate n c"
  by (induction n) (simp_all add: latin_lower_def)

text \<open>
  C4 fails as stated for long keys. The key is the letter \<^verbatim>\<open>a\<close> 200 times, the query
  the letter \<^verbatim>\<open>x\<close> followed by \<^verbatim>\<open>a\<close> 199 times: the two share a block of 199
  characters, so the ratio of the specification is at least \<open>398 / 400\<close>, above the threshold.
  With a key of 200 characters \<^verbatim>\<open>SequenceMatcher\<close> leaves out of its index every character that occurs in
  the key more than 3 times; the ratio it returns is 0, and \<^verbatim>\<open>get_similar_terms\<close> does
  not return the key.
\<close>

theorem autojunk_counterexample:
  "get_similar_terms latin_lower
     (fst (add_term latin_lower \<lparr>terms = [], clock = id, ticks = 0\<rparr>
        (Some (replicate 200 0x61)) (Some (u ''a'')) (Some (u ''general'')) (u ''manual'') 1))
     (0x78 # replicate 199 0x61) 5 = [] \<and>
   dict_keys (terms (fst (add_term latin_lower \<lparr>terms = [], clock = id, ticks = 0\<rparr>
        (Some (replicate 200 0x61)) (Some (u ''a'')) (Some (u ''general'')) (u ''manual'') 1))) =
     [replicate 200 0x61] \<and>
   ratio True (0x78 # replicate 199 0x61) (replicate 200 (0x61 :: codepoint)) = 0 \<and>
   common_block (0x78 # replicate 199 0x61) (replicate 200 (0x61 :: codepoint)) 1 0 199 \<and>
   0.6 < ratcliff_obershelp (0x78 # replicate 199 0x61) (replicate 200 (0x61 :: codepoint))"
proof -
  let ?q = "0x78 # replicate 199 (0x61 :: codepoint)"
  let ?k = "replicate 200 (0x61 :: codepoint)"
  have "\<forall>x \<in> set ?k. popular ?k x"
    by (simp add: popular_def count_list_replicate)
  moreover have "?k \<noteq> []" by simp
  moreover have "?q ! 0 \<noteq> ?k ! 0" by simp
  ultimately have r: "ratio True ?q ?k = 0" by (rule ratio_all_popular)
  have a: "latin_lower_cp 0x61 = [0x61]" by (simp add: latin_lower_cp_def)
  have "latin_lower ?q = ?q"
    using latin_lower_replicate [OF a, of 199]
    by (simp add: latin_lower_def latin_lower_cp_def)
  moreover have "py_strip ?q = ?q"
    by (rule py_strip_same) (simp_all add: py_isspace_def)
  ultimately have q: "py_strip (latin_lower ?q) = ?q" by simp
  have "py_strip ?k = ?k"
    by (rule py_strip_same) (simp_all add: py_isspace_def)
  with latin_lower_replicate [OF a, of 200] have k: "py_strip (latin_lower ?k) = ?k" by simp
  have t: "dict_keys (terms (fst (add_term latin_lower \<lparr>terms = [], clock = id, ticks = 0\<rparr>
        (Some ?k) (Some (u ''a'')) (Some (u ''general'')) (u ''manual'') 1))) = [?k]"
    unfolding add_term_Some k by (simp add: dict_keys_def)
  have s: "get_similar_terms latin_lower
     (fst (add_term latin_lower \<lparr>terms = [], clock = id, ticks = 0\<rparr>
        (Some ?k) (Some (u ''a'')) (Some (u ''general'')) (u ''manual'') 1)) ?q 5 = []"
    unfolding get_similar_terms_eq candidates_def q t
    by (simp add: r py_sorted_reverse_def py_slice_to_def)
  have c: "common_block ?q ?k 1 0 199"
    by (simp add: common_block_def)
  from ratcliff_obershelp_lower_bound [OF c] have b: "0.6 < ratcliff_obershelp ?q ?k" by simp
  from s t r c b show ?thesis by simp
qed

text \<open>
  C4, amended. With \<open>q\<close> the lower-cased, trimmed query, the candidates are the stored keys whose
  ratio with \<open>q\<close>, as \<^verbatim>\<open>difflib.SequenceMatcher\<close> computes it with its default
  \<^verbatim>\<open>autojunk\<close> heuristic, is above 0.6, each with its ratio, in the iteration order of the
  key set. The result is the candidates sorted by descending score, by a stable sort (keys with
  equal scores stay in iteration order), cut to \<^verbatim>\<open>[:n]\<close>: the first \<open>n\<close> when \<open>n\<close> is a
  count. When no key scores above the threshold the result is the empty list. For a key of
  fewer than 200 characters the heuristic does nothing, and the ratio is the one the
  specification describes.
\<close>

theorem get_similar_terms_ranking:
  "get_similar_terms lower d trm n =
     py_slice_to n (sort_key (\<lambda>(k, r). - r) (candidates lower d trm)) \<and>
   (0 \<le> n \<longrightarrow>
      get_similar_terms lower d trm n =
        take (nat n) (sort_key (\<lambda>(k, r). - r) (candidates lower d trm))) \<and>
   candidates lower d trm =
     filter (\<lambda>(k, r). 0.6 < r)
       (map (\<lambda>k. (k, ratio True (py_strip (lower trm)) k)) (dict_keys (terms d))) \<and>
   sorted (rev (map snd (sort_key (\<lambda>(k, r). - r) (candidates lower d trm)))) \<and>
   (\<forall>v. filter (\<lambda>(k, r). r = v) (sort_key (\<lambda>(k, r). - r) (candidates lower d trm)) =
        filter (\<lambda>(k, r). r = v) (candidates lower d trm)) \<and>
   ((\<forall>k \<in> set (dict_keys (terms d)). ratio True (py_strip (lower trm)) k \<le> 0.6) \<longrightarrow>
      get_similar_terms lower d trm n = []) \<and>
   (\<forall>k \<in> set (dict_keys (terms d)). length k < 200 \<longrightarrow>
      ratio True (py_strip (lower trm)) k = ratcliff_obershelp (py_strip (lower trm)) k)"
proof -
  let ?s = "sort_key (\<lambda>(k, r). - r) (candidates lower d trm)"
  have key: "(\<lambda>(k, r). - r) = (\<lambda>p :: ustr \<times> real. - snd p)" by auto
  have s: "py_sorted_reverse snd (candidates lower d trm) = ?s"
    by (simp add: py_sorted_reverse_real key)
  have 1: "get_similar_terms lower d trm n = py_slice_to n ?s"
    by (simp add: get_similar_terms_eq s)
  then have 2: "0 \<le> n \<longrightarrow> get_similar_terms lower d trm n = take (nat n) ?s"
    by (simp add: py_slice_to_def)
  have 3: "sorted (rev (map snd ?s))"
    using py_sorted_reverse_descending [of snd "candidates lower d trm"] by (simp add: s)
  have 4: "\<forall>v. filter (\<lambda>(k, r). r = v) ?s = filter (\<lambda>(k, r). r = v) (candidates lower d trm)"
  proof
    fix v
    have "(\<lambda>(k, r). r = v) = (\<lambda>p :: ustr \<times> real. snd p = v)" by auto
    with py_sorted_reverse_stable [of snd v "candidates lower d trm"]
    show "filter (\<lambda>(k, r). r = v) ?s = filter (\<lambda>(k, r). r = v) (candidates lower d trm)"
      by (simp add: s)
  qed
  have 5: "(\<forall>k \<in> set (dict_keys (terms d)). ratio True (py_strip (lower trm)) k \<le> 0.6) \<longrightarrow>
      get_similar_terms lower d trm n = []"
  proof
    assume "\<forall>k \<in> set (dict_keys (terms d)). ratio True (py_strip (lower trm)) k \<le> 0.6"
    then have "candidates lower d trm = []"
      unfolding candidates_def filter_empty_conv by fastforce
    then show "get_similar_terms lower d trm n = []"
      by (simp add: get_similar_terms_eq py_sorted_reverse_def py_slice_to_def)
  qed
  have 6: "\<forall>k \<in> set (dict_keys (terms d)). length k < 200 \<longrightarrow>
      ratio True (py_strip (lower trm)) k = ratcliff_obershelp (py_strip (lower trm)) k"
    by (simp add: ratio_short)
  have 7: "candidates lower d trm =
     filter (\<lambda>(k, r). 0.6 < r)
       (map (\<lambda>k. (k, ratio True (py_strip (lower trm)) k)) (dict_keys (terms d)))"
    by (rule candidates_def)
  show ?thesis
    using 1 2 7 3 4 5 6 by (intro conjI) assumption+
qed

theorem get_similar_terms_ranking_witness:
  "get_similar_terms latin_lower
     \<lparr>terms = map (\<lambda>k. (k, \<lparr>t_vietnamese = [], t_category = None, t_source = [], t_confidence = 1,
                           t_added_date = 0, t_last_updated = 0, t_versions = []\<rparr>))
                [u ''stomach'', u ''heartache'', u ''headache''],
      clock = id, ticks = 0\<rparr> (u '' Hadache'') 5 =
     [(u ''headache'', 14 / 15), (u ''heartache'', 3 / 4)] \<and>
   get_similar_terms latin_lower
     \<lparr>terms = map (\<lambda>k. (k, \<lparr>t_vietnamese = [], t_category = None, t_source = [], t_confidence = 1,
                           t_added_date = 0, t_last_updated = 0, t_versions = []\<rparr>))
                [u ''stomach'', u ''heartache'', u ''headache''],
      clock = id, ticks = 0\<rparr> (u ''xyz123'') 5 = [] \<and>
   ratcliff_obershelp (u ''hadache'') (u ''headache'') = 14 / 15"
proof -
  define d where "d = \<lparr>terms = map (\<lambda>k. (k, \<lparr>t_vietnamese = [], t_category = None, t_source = [], t_confidence = 1,
                           t_added_date = 0, t_last_updated = 0, t_versions = []\<rparr>))
                [u ''stomach'', u ''heartache'', u ''headache''],
      clock = id, ticks = 0\<rparr>"
  have q: "py_strip (latin_lower (u '' Hadache'')) = u ''hadache''"
      "py_strip (latin_lower (u ''xyz123'')) = u ''xyz123''"
    by (simp_all add: u_def py_strip_def latin_lower_def latin_lower_cp_def py_isspace_def)
  have r: "ratio True (u ''hadache'') (u ''headache'') = 14 / 15"
      "ratio True (u ''hadache'') (u ''heartache'') = 3 / 4"
      "ratio True (u ''hadache'') (u ''stomach'') = 3 / 7"
    by code_simp+
  have z: "ratio True (u ''xyz123'') (u ''headache'') = 0"
      "ratio True (u ''xyz123'') (u ''heartache'') = 0"
      "ratio True (u ''xyz123'') (u ''stomach'') = 0"
    by code_simp+
  have keys: "dict_keys (terms d) = [u ''stomach'', u ''heartache'', u ''headache'']"
    by (simp add: dict_keys_def d_def)
  have c: "candidates latin_lower d (u '' Hadache'') =
      [(u ''heartache'', 3 / 4), (u ''headache'', 14 / 15)]"
    unfolding candidates_def keys q by (simp add: r)
  have s: "take (nat 5) (sort_key (\<lambda>(k, r). - r) (candidates latin_lower d (u '' Hadache''))) =
      [(u ''headache'', 14 / 15), (u ''heartache'', 3 / 4)]"
    unfolding c by simp
  note rk = get_similar_terms_ranking [where lower = latin_lower and d = d and n = 5]
  have "(0::int) \<le> 5" by simp
  with rk [where trm = "u '' Hadache''", THEN conjunct2, THEN conjunct1]
  have "get_similar_terms latin_lower d (u '' Hadache'') 5 =
      take (nat 5) (sort_key (\<lambda>(k, r). - r) (candidates latin_lower d (u '' Hadache'')))"
    by (rule mp)
  from this s have 1: "get_similar_terms latin_lower d (u '' Hadache'') 5 =
      [(u ''headache'', 14 / 15), (u ''heartache'', 3 / 4)]"
    by (rule trans)
  have "\<forall>k \<in> set (dict_keys (terms d)). ratio True (py_strip (latin_lower (u ''xyz123''))) k \<le> 0.6"
    unfolding keys q by (simp add: z)
  with rk [where trm = "u ''xyz123''", THEN conjunct2, THEN conjunct2,
      THEN conjunct2, THEN conjunct2, THEN conjunct2, THEN conjunct1]
  have 2: "get_similar_terms latin_lower d (u ''xyz123'') 5 = []" by (rule mp)
  have "u ''headache'' \<in> set (dict_keys (terms d))" "length (u ''headache'') < 200"
    by (simp_all add: keys u_def)
  with rk [where trm = "u '' Hadache''", THEN conjunct2, THEN conjunct2,
      THEN conjunct2, THEN conjunct2, THEN conjunct2, THEN conjunct2]
  have "ratio True (py_strip (latin_lower (u '' Hadache''))) (u ''headache'') =
      ratcliff_obershelp (py_strip (latin_lower (u '' Hadache''))) (u ''headache'')"
    by blast
  then have 3: "ratcliff_obershelp (u ''hadache'') (u ''headache'') = 14 / 15"
    by (simp add: q r)
  from 1 2 3 show ?thesis unfolding d_def by (intro conjI)
qed

section \<open>The validator's checks\<close>

definition keys_normalized :: "(ustr \<Rightarrow> ustr) \<Rightarrow> dictionary \<Rightarrow> bool" where
  "keys_normalized lower d \<longleftrightarrow> list_all (\<lambda>k. py_strip (lower k) = k) (dict_keys (terms d))"


lemma base_letters_subset: "set base_letters \<subseteq> set vietnamese_chars"
  by (simp add: base_letters_def vietnamese_chars_def)

lemma has_missing_diacritics_False: "has_missing_diacritics lower text = False"
proof -
  have "list_ex (\<lambda>c. c \<in> set (lower text)) vietnamese_chars"
    if "list_ex (\<lambda>c. c \<in> set base_letters) (lower text)"
  proof -
    from that obtain c where c: "c \<in> set (lower text)" "c \<in> set base_letters"
      by (auto simp: list_ex_iff)
    with base_letters_subset have "c \<in> set vietnamese_chars" by blast
    with c(1) show ?thesis by (auto simp: list_ex_iff)
  qed
  then show ?thesis by (auto simp: has_missing_diacritics_def Let_def)
qed

lemma check_formatting_iff:
  "check_formatting text \<longleftrightarrow>
     text \<noteq> [] \<and> py_strip text = text \<and> \<not> py_contains [0x20, 0x20] text \<and>
     (\<forall>c \<in> set text. allowed_char c)"
  by (auto simp: check_formatting_def list_ex_iff)

lemma collect_total:
  "(\<And>x. x \<in> set xs \<Longrightarrow> f x = Inr (g x)) \<Longrightarrow> collect f xs = Inr (map g xs)"
  by (induction xs) simp_all

lemma normalized_key_found:
  assumes "keys_normalized lower d" "k \<in> set (dict_keys (terms d))"
  shows "get_translation lower d k = dict_get (terms d) k" "get_translation lower d k \<noteq> None"
proof -
  from assms have "py_strip (lower k) = k" by (simp add: keys_normalized_def list_all_iff)
  then show "get_translation lower d k = dict_get (terms d) k" by (simp add: get_translation_def)
  with assms(2) dict_get_keys [of "terms d" k] show "get_translation lower d k \<noteq> None" by simp
qed

lemma similar_entries_total:
  assumes "keys_normalized lower d"
  shows "collect (similar_entry lower d) (get_similar_terms lower d trm n) =
     Inr (map (\<lambda>(k, score).
            \<lparr>s_english = k, s_vietnamese = t_vietnamese (the (get_translation lower d k)),
             s_similarity = score\<rparr>) (get_similar_terms lower d trm n))"
proof (rule collect_total)
  fix x assume x: "x \<in> set (get_similar_terms lower d trm n)"
  obtain k score where p: "x = (k, score)" by (cases x)
  with x have "k \<in> set (dict_keys (terms d))" by (auto dest: get_similar_terms_keys)
  from normalized_key_found(2) [OF assms this] obtain entry where "get_translation lower d k = Some entry"
    by blast
  with p show "similar_entry lower d x =
      Inr (case x of (k, score) \<Rightarrow>
            \<lparr>s_english = k, s_vietnamese = t_vietnamese (the (get_translation lower d k)),
             s_similarity = score\<rparr>)"
    by (simp add: similar_entry_def)
qed

lemma related_lines_total:
  assumes "keys_normalized lower d" "set xs \<subseteq> set (get_similar_terms lower d trm n)"
  shows "collect (related_line lower d) xs =
     Inr (map (\<lambda>(k, score). u ''- '' @ k @ u '': '' @ t_vietnamese (the (get_translation lower d k))) xs)"
proof (rule collect_total)
  fix x assume x: "x \<in> set xs"
  obtain k score where p: "x = (k, score)" by (cases x)
  with x assms(2) have "k \<in> set (dict_keys (terms d))" by (auto dest: get_similar_terms_keys)
  from normalized_key_found(2) [OF assms(1) this] obtain entry where "get_translation lower d k = Some entry"
    by blast
  with p show "related_line lower d x =
      Inr (case x of (k, score) \<Rightarrow> u ''- '' @ k @ u '': '' @ t_vietnamese (the (get_translation lower d k)))"
    by (simp add: related_line_def)
qed

text \<open>
  The mutating operations store a key only after normalising it: every key of a state reached
  from the empty store is the normalised form of some string. Such a key is a fixed point of
  normalisation provided that normalising twice is normalising once. That is a property of
  \<^verbatim>\<open>str.lower\<close> and \<^verbatim>\<open>str.strip\<close>, not of the program; it is a hypothesis here,
  and \<open>normalize_idem\<close> is its proof for \<open>latin_lower\<close>.
\<close>

lemma add_term_keys_image:
  "set (dict_keys (terms (fst (add_term lower d english vietnamese category source confidence)))) \<subseteq>
     set (dict_keys (terms d)) \<union> range (\<lambda>s. py_strip (lower s))"
proof (cases "english = None \<or> vietnamese = None")
  case True
  then show ?thesis by (simp add: add_term_None)
next
  case False
  then obtain e v where "english = Some e" "vietnamese = Some v" by auto
  then show ?thesis by (auto simp: add_term_Some dict_keys_dict_set)
qed

lemma update_term_keys_same:
  "dict_keys (terms (fst (update_term lower d english vietnamese source confidence))) =
     dict_keys (terms d)"
proof (cases "dict_get (terms d) (py_strip (lower english))")
  case None
  then show ?thesis by (simp add: update_term_absent)
next
  case (Some entry)
  then have "py_strip (lower english) \<in> set (dict_keys (terms d))"
    using dict_get_keys [of "terms d" "py_strip (lower english)"] by simp
  then show ?thesis
    by (simp add: update_term_present [where lower = lower, OF Some] dict_keys_dict_set)
qed

lemma import_rows_keys_image:
  "set (dict_keys (terms (fst (import_rows lower pyfloat d rows source)))) \<subseteq>
     set (dict_keys (terms d)) \<union> range (\<lambda>s. py_strip (lower s))"
proof (induction rows arbitrary: d)
  case Nil
  show ?case by simp
next
  case (Cons row rows)
  show ?case
  proof (cases "row_getitem row (u ''English'')")
    case (Inl e)
    then show ?thesis by simp
  next
    case english: (Inr english)
    show ?thesis
    proof (cases "row_getitem row (u ''Vietnamese'')")
      case (Inl e)
      with english show ?thesis by simp
    next
      case vietnamese: (Inr vietnamese)
      show ?thesis
      proof (cases "row_confidence pyfloat row")
        case (Inl e)
        with english vietnamese show ?thesis by simp
      next
        case (Inr confidence)
        let ?d = "fst (add_term lower d english vietnamese (row_category row) source confidence)"
        from Cons.IH [of ?d] add_term_keys_image [of lower d english vietnamese "row_category row" source confidence]
        have "set (dict_keys (terms (fst (import_rows lower pyfloat ?d rows source)))) \<subseteq>
            set (dict_keys (terms d)) \<union> range (\<lambda>s. py_strip (lower s))"
          by blast
        with english vietnamese Inr show ?thesis by simp
      qed
    qed
  qed
qed

lemma reachable_keys_image:
  "reachable lower d \<Longrightarrow> set (dict_keys (terms d)) \<subseteq> range (\<lambda>s. py_strip (lower s))"
proof (induction rule: reachable.induct)
  case (reachable_init c n)
  show ?case by (simp add: dict_keys_def)
next
  case (reachable_add d english vietnamese category source confidence)
  with add_term_keys_image [of lower d english vietnamese category source confidence]
  show ?case by blast
next
  case (reachable_update d english vietnamese source confidence)
  then show ?case by (simp add: update_term_keys_same)
next
  case (reachable_import d pyfloat csv source)
  show ?case
  proof (cases csv)
    case None
    with reachable_import show ?thesis by (simp add: import_csv_def)
  next
    case (Some rows)
    with reachable_import import_rows_keys_image [of lower pyfloat d "dict_reader rows" source]
    show ?thesis by (auto simp: import_csv_def)
  qed
qed

lemma reachable_keys_normalized:
  assumes "\<forall>s. py_strip (lower (py_strip (lower s))) = py_strip (lower s)"
    and "reachable lower d"
  shows "keys_normalized lower d"
proof -
  have "py_strip (lower k) = k" if "k \<in> set (dict_keys (terms d))" for k
  proof -
    from reachable_keys_image [OF assms(2)] that obtain s where "k = py_strip (lower s)" by blast
    with assms(1) show ?thesis by simp
  qed
  then show ?thesis by (simp add: keys_normalized_def list_all_iff)
qed

text \<open>
  C5. The diacritic check of the code can never fire. Each of the seven base letters is itself
  one of the characters of \<^verbatim>\<open>vietnamese_chars\<close>, so whenever the lower-cased text
  holds a base letter, \<^verbatim>\<open>has_diacritics\<close> is true as well, and
  \<^verbatim>\<open>_has_missing_diacritics\<close> returns \<^verbatim>\<open>False\<close> for every text, whatever
  lower-casing does. The proposed translation U+0111 a u holds the base letter d-with-stroke
  and no other marked letter; the claim has it reported with "Missing diacritical marks" and
  confidence 0.8, the code returns a valid result with no issue and confidence 1.0.
\<close>

theorem missing_diacritics_never_reported:
  "(\<forall>text. has_missing_diacritics lower text = False) \<and>
   list_ex (\<lambda>c. c \<in> set base_letters) (latin_lower [0x111, 0x61, 0x75]) \<and>
   validate_translation lower \<lparr>terms = [], clock = id, ticks = 0\<rparr> (u ''pain'')
       [0x111, 0x61, 0x75] =
     Inr \<lparr>r_valid = True, r_issues = [], r_confidence = 1, r_suggestions = [],
          r_similar_terms = None\<rparr>"
proof -
  have "list_ex (\<lambda>c. c \<in> set base_letters) (latin_lower [0x111, 0x61, 0x75])"
    by (simp add: base_letters_def latin_lower_def latin_lower_cp_def)
  moreover have "check_formatting [0x111, 0x61, 0x75]"
    by (simp add: check_formatting_def py_strip_def py_isspace_def allowed_char_def
        vietnamese_chars_def)
  then have "validate_translation lower \<lparr>terms = [], clock = id, ticks = 0\<rparr> (u ''pain'')
       [0x111, 0x61, 0x75] =
     Inr \<lparr>r_valid = True, r_issues = [], r_confidence = 1, r_suggestions = [],
          r_similar_terms = None\<rparr>"
    by (simp add: validate_translation_def get_translation_def dict_get_def
        has_missing_diacritics_False get_similar_terms_eq candidates_def dict_keys_def
        py_sorted_reverse_def py_slice_to_def)
  ultimately show ?thesis by (simp add: has_missing_diacritics_False)
qed

text \<open>
  C6. The white list of the code has the lower-case Vietnamese letters and, of the upper-case
  ones, only U+0110 (capital D with stroke) next to \<^verbatim>\<open>A-Z\<close>. A text that starts with
  U+00C1 (capital A with acute) is made of letters that the claim puts on the white list, yet
  the code rejects it: "Incorrect formatting", confidence 0.9. The same word with the
  lower-case letter U+00E1 passes, and so does a word that starts with U+0110.
\<close>

theorem uppercase_diacritic_rejected:
  "\<not> allowed_char 0xC1 \<and> allowed_char 0xE1 \<and> allowed_char 0x110 \<and> allowed_char 0x111 \<and>
   check_formatting [0xC1, 0x6E, 0x68] = False \<and>
   check_formatting [0xE1, 0x6E, 0x68] = True \<and>
   check_formatting [0x110, 0x61, 0x75] = True \<and>
   validate_translation lower \<lparr>terms = [], clock = id, ticks = 0\<rparr> (u ''light'')
       [0xC1, 0x6E, 0x68] =
     Inr \<lparr>r_valid = False, r_issues = [u ''Incorrect formatting''], r_confidence = 0.9,
          r_suggestions = [], r_similar_terms = None\<rparr>"
proof -
  have a: "\<not> allowed_char 0xC1" "allowed_char 0xE1" "allowed_char 0x110" "allowed_char 0x111"
      "allowed_char 0x6E" "allowed_char 0x68" "allowed_char 0x61" "allowed_char 0x75"
    by (simp_all add: allowed_char_def vietnamese_chars_def py_isspace_def)
  have c: "check_formatting [0xC1, 0x6E, 0x68] = False" "check_formatting [0xE1, 0x6E, 0x68] = True"
      "check_formatting [0x110, 0x61, 0x75] = True"
    by (simp_all add: check_formatting_def py_strip_def py_isspace_def a)
  have "validate_translation lower \<lparr>terms = [], clock = id, ticks = 0\<rparr> (u ''light'')
       [0xC1, 0x6E, 0x68] =
     Inr \<lparr>r_valid = False, r_issues = [u ''Incorrect formatting''], r_confidence = 0.9,
          r_suggestions = [], r_similar_terms = None\<rparr>"
    by (simp add: validate_translation_def get_translation_def dict_get_def c
        has_missing_diacritics_False get_similar_terms_eq candidates_def dict_keys_def
        py_sorted_reverse_def py_slice_to_def)
  with a(1-4) c show ?thesis by simp
qed




lemma suggest_improvements_total:
  assumes "keys_normalized lower d"
  shows "\<exists>lines. suggest_improvements lower d english vietnamese = Inr lines"
proof -
  have "set (py_slice_to 3 (get_similar_terms lower d english 5)) \<subseteq>
      set (get_similar_terms lower d english 5)"
    by (rule set_py_slice_to)
  from related_lines_total [OF assms this] show ?thesis
    by (simp add: suggest_improvements_def Let_def)
qed

lemma validate_translation_total:
  assumes "keys_normalized lower d"
  shows "\<exists>res. validate_translation lower d english vietnamese = Inr res"
  using similar_entries_total [OF assms, of english 5]
  by (simp add: validate_translation_def Let_def)

text \<open>
  C10. On a store whose keys are fixed points of normalisation, every key that
  \<^verbatim>\<open>get_similar_terms\<close> returns is a key of the store and \<^verbatim>\<open>get_translation\<close> finds
  its record; \<^verbatim>\<open>validate_translation\<close> and \<^verbatim>\<open>suggest_improvements\<close> return a result
  and do not raise. The three mutating operations store a key only in normalised form: in
  every state reached from the empty store each key is the normalised form of some string, and
  so the keys are fixed points of normalisation provided that normalising twice is normalising
  once, which is the one property of \<^verbatim>\<open>str.lower\<close> and \<^verbatim>\<open>str.strip\<close> that this
  needs.
\<close>

theorem similar_terms_are_stored:
  "(keys_normalized lower d \<longrightarrow>
      (\<forall>(k, score) \<in> set (get_similar_terms lower d trm n).
          k \<in> set (dict_keys (terms d)) \<and> get_translation lower d k \<noteq> None) \<and>
      (\<exists>res. validate_translation lower d english vietnamese = Inr res) \<and>
      (\<exists>lines. suggest_improvements lower d english vietnamese = Inr lines)) \<and>
   (reachable lower d \<longrightarrow>
      set (dict_keys (terms d)) \<subseteq> range (\<lambda>s. py_strip (lower s))) \<and>
   ((\<forall>s. py_strip (lower (py_strip (lower s))) = py_strip (lower s)) \<and> reachable lower d \<longrightarrow>
      keys_normalized lower d)"
proof (intro conjI impI)
  assume "(\<forall>s. py_strip (lower (py_strip (lower s))) = py_strip (lower s)) \<and> reachable lower d"
  then show "keys_normalized lower d" by (simp add: reachable_keys_normalized)
next
  assume "reachable lower d"
  then show "set (dict_keys (terms d)) \<subseteq> range (\<lambda>s. py_strip (lower s))"
    by (rule reachable_keys_image)
next
  assume kn: "keys_normalized lower d"
  show "\<forall>(k, score) \<in> set (get_similar_terms lower d trm n).
          k \<in> set (dict_keys (terms d)) \<and> get_translation lower d k \<noteq> None"
  proof (clarify, intro conjI)
    fix k score assume "(k, score) \<in> set (get_similar_terms lower d trm n)"
    then show k: "k \<in> set (dict_keys (terms d))" by (rule get_similar_terms_keys)
    from normalized_key_found(2) [OF kn k] show "get_translation lower d k \<noteq> None" .
  qed
  from kn show "\<exists>res. validate_translation lower d english vietnamese = Inr res"
    by (rule validate_translation_total)
  from kn show "\<exists>lines. suggest_improvements lower d english vietnamese = Inr lines"
    by (rule suggest_improvements_total)
qed

theorem similar_terms_are_stored_witness:
  "get_similar_terms latin_lower
     (fst (add_term latin_lower \<lparr>terms = [], clock = id, ticks = 0\<rparr>
        (Some (u '' Fever'')) (Some (u ''sot'')) (Some (u ''general'')) (u ''manual'') 1))
     (u ''FEVER'') 5 = [(u ''fever'', 1)] \<and>
   get_translation latin_lower
     (fst (add_term latin_lower \<lparr>terms = [], clock = id, ticks = 0\<rparr>
        (Some (u '' Fever'')) (Some (u ''sot'')) (Some (u ''general'')) (u ''manual'') 1))
     (u ''fever'') \<noteq> None \<and>
   keys_normalized latin_lower
     (fst (add_term latin_lower \<lparr>terms = [], clock = id, ticks = 0\<rparr>
        (Some (u '' Fever'')) (Some (u ''sot'')) (Some (u ''general'')) (u ''manual'') 1))"
proof -
  define d where "d = fst (add_term latin_lower \<lparr>terms = [], clock = id, ticks = 0\<rparr>
        (Some (u '' Fever'')) (Some (u ''sot'')) (Some (u ''general'')) (u ''manual'') 1)"
  note stored = similar_terms_are_stored [where lower = latin_lower and d = d]
  have idem: "\<forall>s. py_strip (latin_lower (py_strip (latin_lower s))) = py_strip (latin_lower s)"
    by (simp add: normalize_idem)
  have "reachable latin_lower d" unfolding d_def by (intro reachable_add reachable_init)
  with idem stored have kn: "keys_normalized latin_lower d" by blast
  have k: "py_strip (latin_lower (u '' Fever'')) = u ''fever''"
      "py_strip (latin_lower (u ''FEVER'')) = u ''fever''"
    by (simp_all add: u_def py_strip_def latin_lower_def latin_lower_cp_def py_isspace_def)
  have r: "ratio True (u ''fever'') (u ''fever'') = 1" by code_simp
  have s: "get_similar_terms latin_lower d (u ''FEVER'') 5 = [(u ''fever'', 1)]"
    by (simp add: get_similar_terms_eq candidates_def d_def add_term_Some dict_keys_def k r
        py_sorted_reverse_def py_slice_to_def)
  from stored [where trm = "u ''FEVER''" and n = 5] kn
  have "\<forall>(k, score) \<in> set (get_similar_terms latin_lower d (u ''FEVER'') 5).
          k \<in> set (dict_keys (terms d)) \<and> get_translation latin_lower d k \<noteq> None"
    by blast
  with s have "get_translation latin_lower d (u ''fever'') \<noteq> None" by simp
  with s kn show ?thesis by (simp add: d_def)
qed

section \<open>Importing a file\<close>
















end
